theory Spec2Isabelle
  imports Complex_Main "HOL-Library.Multiset" "HOL-Library.AList"
begin

section \<open>Python values and exceptions\<close>

text \<open>
  The program is \<^verbatim>\<open>debruijn/debruijn.py\<close>. Nodes and k-mers are Python strings
  (\<^typ>\<open>string\<close>), counts and edge weights are Python integers (\<^typ>\<open>int\<close>), averages
  are the exact rationals behind Python's floats (\<^typ>\<open>rat\<close>). Every exception the
  functions can raise is a value of \<open>error\<close>; a function that may raise returns
  \<open>error + 'a\<close> with \<open>Inl\<close> for the exception.
\<close>

datatype error =
    StatisticsError
  | IndexError
  | ValueError
  | RuntimeError
  | NetworkXError
  | NetworkXPointlessConcept
  | NodeNotFound

section \<open>Reading the reads and counting k-mers\<close>

text \<open>
  A string is the list of its characters, a character a code point below 256.
  \<^verbatim>\<open>str.strip()\<close> removes leading and trailing white space; below 256 these are the
  characters 9 to 13, 28 to 32, 133 and 160.
\<close>

definition is_space :: "char \<Rightarrow> bool" where
  "is_space c \<longleftrightarrow> c \<in> set [CHR 0x09, CHR 0x0A, CHR 0x0B, CHR 0x0C, CHR 0x0D,
                            CHR 0x1C, CHR 0x1D, CHR 0x1E, CHR 0x1F, CHR '' '', CHR 0x85, CHR 0xA0]"

definition strip :: "string \<Rightarrow> string" where
  "strip s = rev (dropWhile is_space (rev (dropWhile is_space s)))"

text \<open>
  \<^verbatim>\<open>read_fastq\<close> iterates over the lines of the file: the loop takes one line, the
  body takes the next one (the read, which is yielded stripped) and skips two more. A
  \<^verbatim>\<open>next\<close> on the exhausted file raises \<^verbatim>\<open>StopIteration\<close> inside the generator,
  which Python turns into \<^verbatim>\<open>RuntimeError\<close>. The file is the list of its lines.
\<close>

fun read_fastq :: "string list \<Rightarrow> error + string list" where
  "read_fastq [] = Inr []"
| "read_fastq (l1 # l2 # l3 # l4 # rest) =
     (case read_fastq rest of Inl e \<Rightarrow> Inl e | Inr rs \<Rightarrow> Inr (strip l2 # rs))"
| "read_fastq _ = Inl RuntimeError"

text \<open>
  \<^verbatim>\<open>cut_kmer(read, kmer_size)\<close>: \<^verbatim>\<open>read[i:i + kmer_size]\<close> for
  \<^verbatim>\<open>i in range(len(read) - kmer_size + 1)\<close>; the range is empty when the bound is not
  positive. The size is a natural number here (the program only passes 3).
\<close>

definition cut_kmer :: "string \<Rightarrow> nat \<Rightarrow> string list" where
  "cut_kmer read kmer_size =
     map (\<lambda>i. take kmer_size (drop i read)) [0 ..< length read + 1 - kmer_size]"

text \<open>
  A Python dict keeps its keys in insertion order and assigning to a present key keeps the
  key's place: an association list updated by \<^const>\<open>AList.update\<close>.
\<close>

type_synonym kmer_dict = "(string \<times> int) list"

definition count_kmer :: "kmer_dict \<Rightarrow> string \<Rightarrow> kmer_dict" where
  "count_kmer kmer_dict kmer =
     (case map_of kmer_dict kmer of
        Some c \<Rightarrow> AList.update kmer (c + 1) kmer_dict
      | None \<Rightarrow> AList.update kmer 1 kmer_dict)"

text \<open>The second argument is never read: the k-mers are cut at the literal size 3.\<close>

definition build_kmer_dict :: "string list \<Rightarrow> int \<Rightarrow> error + kmer_dict" where
  "build_kmer_dict fastq_file kmer_size =
     (case read_fastq fastq_file of
        Inl e \<Rightarrow> Inl e
      | Inr reads \<Rightarrow> Inr (foldl (\<lambda>d read. foldl count_kmer d (cut_kmer read 3)) [] reads))"

text \<open>
  What the mapping is to contain, in the words of the specification: for every string, the
  number of places in the reads where it occurs as a substring of length 3.
\<close>

definition occurrences3 :: "string list \<Rightarrow> string \<Rightarrow> nat" where
  "occurrences3 reads kmer =
     (\<Sum>read\<leftarrow>reads. card {i. i + 3 \<le> length read \<and> take 3 (drop i read) = kmer})"

section \<open>The graph\<close>

text \<open>
  A \<^verbatim>\<open>networkx.DiGraph\<close> keeps its nodes in insertion order and, for each node, its
  out-edges and in-edges in insertion order. The model keeps the node list and one list
  of edges \<open>((u, v), weight)\<close> in insertion order; the successors of a node are then the
  targets of its edges in that order, and the predecessors the sources.
\<close>

record graph =
  nodes :: "string list"
  edges :: "((string \<times> string) \<times> int) list"

definition empty_graph :: graph where
  "empty_graph = \<lparr>nodes = [], edges = []\<rparr>"

definition has_node :: "graph \<Rightarrow> string \<Rightarrow> bool" where
  "has_node g n \<longleftrightarrow> n \<in> set (nodes g)"

definition add_node :: "graph \<Rightarrow> string \<Rightarrow> graph" where
  "add_node g n = (if n \<in> set (nodes g) then g else g\<lparr>nodes := nodes g @ [n]\<rparr>)"

definition has_edge :: "graph \<Rightarrow> string \<Rightarrow> string \<Rightarrow> bool" where
  "has_edge g u v \<longleftrightarrow> map_of (edges g) (u, v) \<noteq> None"

text \<open>\<^verbatim>\<open>add_edge(u, v, weight=w)\<close> adds missing end points, then sets the attribute.\<close>

definition add_edge :: "graph \<Rightarrow> string \<Rightarrow> string \<Rightarrow> int \<Rightarrow> graph" where
  "add_edge g u v w =
     (let g' = add_node (add_node g u) v in g'\<lparr>edges := AList.update (u, v) w (edges g')\<rparr>)"

definition successors :: "graph \<Rightarrow> string \<Rightarrow> string list" where
  "successors g u = map (snd \<circ> fst) (filter (\<lambda>e. fst (fst e) = u) (edges g))"

definition predecessors :: "graph \<Rightarrow> string \<Rightarrow> string list" where
  "predecessors g v = map (fst \<circ> fst) (filter (\<lambda>e. snd (fst e) = v) (edges g))"

text \<open>\<^verbatim>\<open>G.edges(data=True)\<close> lists, node by node, the out-edges of each node.\<close>

definition edges_data :: "graph \<Rightarrow> ((string \<times> string) \<times> int) list" where
  "edges_data g = concat (map (\<lambda>u. filter (\<lambda>e. fst (fst e) = u) (edges g)) (nodes g))"

text \<open>
  \<^verbatim>\<open>G.copy()\<close> builds a new graph from the nodes and from \<^verbatim>\<open>G.edges(data=True)\<close>.
\<close>

definition copy :: "graph \<Rightarrow> graph" where
  "copy g = \<lparr>nodes = nodes g, edges = edges_data g\<rparr>"

text \<open>\<^verbatim>\<open>remove_nodes_from\<close> ignores absent nodes and drops every edge at a removed node.\<close>

definition remove_nodes_from :: "graph \<Rightarrow> string list \<Rightarrow> graph" where
  "remove_nodes_from g ns =
     \<lparr>nodes = filter (\<lambda>n. n \<notin> set ns) (nodes g),
      edges = filter (\<lambda>e. fst (fst e) \<notin> set ns \<and> snd (fst e) \<notin> set ns) (edges g)\<rparr>"

text \<open>\<^verbatim>\<open>G.subgraph(ns)\<close>: the nodes of \<open>G\<close> that are in \<open>ns\<close> and the edges between them.\<close>

definition subgraph :: "graph \<Rightarrow> string list \<Rightarrow> graph" where
  "subgraph g ns =
     \<lparr>nodes = filter (\<lambda>n. n \<in> set ns) (nodes g),
      edges = filter (\<lambda>e. fst (fst e) \<in> set ns \<and> snd (fst e) \<in> set ns) (edges g)\<rparr>"

text \<open>
  The invariants of the data structure: no node twice, no ordered pair of nodes with two
  edges, every edge between nodes of the graph.
\<close>

definition wf_graph :: "graph \<Rightarrow> bool" where
  "wf_graph g \<longleftrightarrow>
     distinct (nodes g) \<and> distinct (map fst (edges g)) \<and>
     (\<forall>e \<in> set (edges g). fst (fst e) \<in> set (nodes g) \<and> snd (fst e) \<in> set (nodes g))"

section \<open>Building the graph\<close>

definition build_graph_step :: "graph \<Rightarrow> string \<times> int \<Rightarrow> graph" where
  "build_graph_step graph kc =
     (let kmer = fst kc; count = snd kc;
          prefix = butlast kmer;
          suffix = drop 1 kmer;
          g1 = (if \<not> has_node graph prefix then add_node graph prefix else graph);
          g2 = (if \<not> has_node g1 suffix then add_node g1 suffix else g1)
      in if has_edge g2 prefix suffix
         then g2\<lparr>edges := AList.update (prefix, suffix)
                            (the (map_of (edges g2) (prefix, suffix)) + count) (edges g2)\<rparr>
         else add_edge g2 prefix suffix count)"

text \<open>The two \<^verbatim>\<open>add_node\<close> tests of a step of the loop, which leave the edges alone.\<close>

definition step_nodes :: "graph \<Rightarrow> string \<Rightarrow> graph" where
  "step_nodes g kmer =
     (let g1 = (if \<not> has_node g (butlast kmer) then add_node g (butlast kmer) else g)
      in if \<not> has_node g1 (drop 1 kmer) then add_node g1 (drop 1 kmer) else g1)"

definition build_graph :: "kmer_dict \<Rightarrow> graph" where
  "build_graph kmer_dict = foldl build_graph_step empty_graph kmer_dict"

definition total_weight :: "graph \<Rightarrow> int" where
  "total_weight g = sum_list (map snd (edges_data g))"

section \<open>Statistics and the random source\<close>

text \<open>
  \<^verbatim>\<open>statistics.mean\<close> raises on an empty list; \<^verbatim>\<open>statistics.stdev\<close> is the square root
  of the sample variance and raises on fewer than two values. Both compute with exact
  fractions and return the nearest float (Python 3.11). The model keeps the exact mean,
  so it is the code up to that last rounding: two different means can have the same
  nearest float. Of a deviation the code reads only whether it is greater than zero, and
  the float nearest to a root is \<^verbatim>\<open>0.0\<close> exactly when the root is at most \<open>2\<^sup>-\<^sup>1\<^sup>0\<^sup>7\<^sup>5\<close>, half
  the smallest positive float: the model returns 0 then and the exact root otherwise.
\<close>

definition mean :: "rat list \<Rightarrow> error + rat" where
  "mean xs = (if xs = [] then Inl StatisticsError else Inr (sum_list xs / of_nat (length xs)))"

definition variance :: "rat list \<Rightarrow> rat" where
  "variance xs =
     (let m = sum_list xs / of_nat (length xs)
      in sum_list (map (\<lambda>x. (x - m)\<^sup>2) xs) / of_nat (length xs - 1))"

definition float_of_root :: "real \<Rightarrow> real" where
  "float_of_root x = (if x \<le> 1 / 2 ^ 1075 then 0 else x)"

definition stdev :: "rat list \<Rightarrow> error + real" where
  "stdev xs =
     (if length xs < 2 then Inl StatisticsError
      else Inr (float_of_root (sqrt (of_rat (variance xs)))))"

text \<open>\<^verbatim>\<open>max(xs)\<close> and \<^verbatim>\<open>xs.index(x)\<close> (the first position of \<open>x\<close>); both raise \<^verbatim>\<open>ValueError\<close>.\<close>

fun py_max :: "'a::linorder list \<Rightarrow> error + 'a" where
  "py_max [] = Inl ValueError"
| "py_max (x # xs) = Inr (fold max xs x)"

fun py_index :: "'a list \<Rightarrow> 'a \<Rightarrow> error + nat" where
  "py_index [] x = Inl ValueError"
| "py_index (y # ys) x =
     (if y = x then Inr 0
      else case py_index ys x of Inl e \<Rightarrow> Inl e | Inr i \<Rightarrow> Inr (Suc i))"

text \<open>\<^verbatim>\<open>xs[i]\<close>: a negative index counts from the end, an index out of range raises.\<close>

definition py_get :: "'a list \<Rightarrow> int \<Rightarrow> error + 'a" where
  "py_get xs i =
     (if 0 \<le> i \<and> i < int (length xs) then Inr (xs ! nat i)
      else if i < 0 \<and> - int (length xs) \<le> i then Inr (xs ! nat (int (length xs) + i))
      else Inl IndexError)"

text \<open>
  The module seeds the interpreter's generator once (\<^verbatim>\<open>random.seed(9001)\<close>) and every
  \<^verbatim>\<open>random.randint\<close> advances it. The generator is not part of the program: its state is
  represented by the sequence of numbers it is still to deliver, and \<^verbatim>\<open>randint(a, b)\<close>
  reduces the next one into \<open>a \<dots> b\<close> (it raises on an empty range).
\<close>

type_synonym rng = "nat \<Rightarrow> nat"

definition randint :: "int \<Rightarrow> int \<Rightarrow> rng \<Rightarrow> error + int \<times> rng" where
  "randint a b rng =
     (if b < a then Inl ValueError
      else Inr (a + int (rng 0) mod (b - a + 1), \<lambda>i. rng (Suc i)))"

text \<open>Mapping a function that may raise over a list stops at the first exception.\<close>

fun map_err :: "('a \<Rightarrow> error + 'b) \<Rightarrow> 'a list \<Rightarrow> error + 'b list" where
  "map_err f [] = Inr []"
| "map_err f (x # xs) =
     (case f x of
        Inl e \<Rightarrow> Inl e
      | Inr y \<Rightarrow> (case map_err f xs of Inl e \<Rightarrow> Inl e | Inr ys \<Rightarrow> Inr (y # ys)))"

section \<open>Removing paths and selecting the best path\<close>

definition removed_nodes :: "string list \<Rightarrow> bool \<Rightarrow> bool \<Rightarrow> string list" where
  "removed_nodes path delete_entry_node delete_sink_node =
     (if delete_entry_node \<and> delete_sink_node then path
      else if delete_entry_node \<and> \<not> delete_sink_node then butlast path
      else if \<not> delete_entry_node \<and> delete_sink_node then drop 1 path
      else butlast (drop 1 path))"

definition remove_paths :: "graph \<Rightarrow> string list list \<Rightarrow> bool \<Rightarrow> bool \<Rightarrow> graph" where
  "remove_paths graph path_list delete_entry_node delete_sink_node =
     foldl (\<lambda>new_graph path.
              remove_nodes_from new_graph (removed_nodes path delete_entry_node delete_sink_node))
           (copy graph) path_list"

text \<open>Lines 190 to 200 of \<^verbatim>\<open>select_best_path\<close>: the two deviations, then the index.\<close>

definition best_path_index ::
  "rng \<Rightarrow> string list list \<Rightarrow> int list \<Rightarrow> rat list \<Rightarrow> error + int \<times> rng" where
  "best_path_index rng path_list path_length weight_avg_list =
     (case stdev weight_avg_list of
        Inl e \<Rightarrow> Inl e
      | Inr std_poids \<Rightarrow>
     (case stdev (map of_int path_length) of
        Inl e \<Rightarrow> Inl e
      | Inr std_long \<Rightarrow>
          if std_poids > 0 then
            (case py_max weight_avg_list of
               Inl e \<Rightarrow> Inl e
             | Inr m \<Rightarrow> (case py_index weight_avg_list m of
                           Inl e \<Rightarrow> Inl e | Inr i \<Rightarrow> Inr (int i, rng)))
          else if std_long > 0 then
            (case py_max path_length of
               Inl e \<Rightarrow> Inl e
             | Inr m \<Rightarrow> (case py_index path_length m of
                           Inl e \<Rightarrow> Inl e | Inr i \<Rightarrow> Inr (int i, rng)))
          else randint 0 (int (length path_list) - 1) rng))"

definition select_best_path ::
  "rng \<Rightarrow> graph \<Rightarrow> string list list \<Rightarrow> int list \<Rightarrow> rat list \<Rightarrow> bool \<Rightarrow> bool
     \<Rightarrow> error + graph \<times> rng" where
  "select_best_path rng graph path_list path_length weight_avg_list
                    delete_entry_node delete_sink_node =
     (case best_path_index rng path_list path_length weight_avg_list of
        Inl e \<Rightarrow> Inl e
      | Inr (i, rng') \<Rightarrow>
     (case py_get path_list i of
        Inl e \<Rightarrow> Inl e
      | Inr best_path \<Rightarrow>
          Inr (foldl (\<lambda>g path. if path \<noteq> best_path
                                then remove_paths g [path] delete_entry_node delete_sink_node
                                else g)
                     graph path_list,
               rng')))"

definition path_average_weight :: "graph \<Rightarrow> string list \<Rightarrow> error + rat" where
  "path_average_weight graph path =
     mean (map (\<lambda>e. of_int (snd e)) (edges_data (subgraph graph path)))"

section \<open>The graph algorithms of networkx\<close>

text \<open>
  \<^verbatim>\<open>all_simple_paths(G, source, target)\<close> (networkx 3): a depth-first search along the
  successors, in their order, that never visits a node twice and explores paths of at
  most \<^verbatim>\<open>len(G) - 1\<close> edges. A target that is not a node is read as a collection of
  targets, for a string its characters. A path ending in a target is produced; the
  search goes on below a node as long as a target is left that is not on the path.
\<close>

primrec explore :: "graph \<Rightarrow> nat \<Rightarrow> string list \<Rightarrow> string list \<Rightarrow> string list list" where
  "explore g 0 path targets = []"
| "explore g (Suc k) path targets =
     concat (map (\<lambda>v. if v \<in> set path then []
                      else (if v \<in> set targets then [path @ [v]] else []) @
                           (if \<exists>t \<in> set targets. t \<notin> set path \<and> t \<noteq> v
                            then explore g k (path @ [v]) targets else []))
                 (successors g (last path)))"

definition all_simple_paths :: "graph \<Rightarrow> string \<Rightarrow> string \<Rightarrow> error + string list list" where
  "all_simple_paths g source target =
     (if source \<notin> set (nodes g) then Inl NodeNotFound
      else let targets = (if target \<in> set (nodes g) then [target] else map (\<lambda>c. [c]) target)
           in if targets = [] then Inr []
              else Inr ((if source \<in> set targets then [[source]] else []) @
                        (if \<exists>t \<in> set targets. t \<noteq> source
                         then explore g (length (nodes g) - 1) [source] targets else [])))"

text \<open>
  \<^verbatim>\<open>has_path\<close> raises when an end point is not a node and otherwise says whether the
  target is reached from the source; \<open>reach\<close> closes a list of nodes under a neighbour
  function, one layer for each node of the graph.
\<close>

primrec reach :: "(string \<Rightarrow> string list) \<Rightarrow> nat \<Rightarrow> string list \<Rightarrow> string list" where
  "reach nb 0 S = S"
| "reach nb (Suc k) S = reach nb k (remdups (S @ concat (map nb S)))"

definition has_path :: "graph \<Rightarrow> string \<Rightarrow> string \<Rightarrow> error + bool" where
  "has_path g source target =
     (if source \<notin> set (nodes g) \<or> target \<notin> set (nodes g) then Inl NodeNotFound
      else Inr (target \<in> set (reach (successors g) (length (nodes g)) [source])))"

text \<open>
  \<^verbatim>\<open>is_directed_acyclic_graph\<close> tries a topological sort: it removes, round after round,
  the nodes without a predecessor among the nodes left, and the graph is acyclic when
  nothing is left.
\<close>

primrec peel :: "graph \<Rightarrow> nat \<Rightarrow> string list \<Rightarrow> string list" where
  "peel g 0 ns = ns"
| "peel g (Suc k) ns = peel g k (filter (\<lambda>v. \<exists>u \<in> set ns. has_edge g u v) ns)"

definition is_directed_acyclic_graph :: "graph \<Rightarrow> bool" where
  "is_directed_acyclic_graph g \<longleftrightarrow> peel g (length (nodes g)) (nodes g) = []"

text \<open>
  \<^verbatim>\<open>lowest_common_ancestor(G, v, w)\<close> (networkx 3) raises on a graph with a cycle, on
  the null graph and on a node that is not in the graph. Otherwise it takes the nodes
  that reach both \<open>v\<close> and \<open>w\<close> (each counted among its own ancestors), returns
  \<^verbatim>\<open>None\<close> when there is none, and else starts at one of them and moves to a successor
  that is a common ancestor too, as long as there is one. Python takes the start from a
  set, in no specified order; the model takes the first in node order.
\<close>

definition ancestors_self :: "graph \<Rightarrow> string \<Rightarrow> string list" where
  "ancestors_self g v = reach (predecessors g) (length (nodes g)) [v]"

definition common_ancestors :: "graph \<Rightarrow> string \<Rightarrow> string \<Rightarrow> string list" where
  "common_ancestors g v w =
     filter (\<lambda>c. c \<in> set (ancestors_self g v) \<and> c \<in> set (ancestors_self g w)) (nodes g)"

primrec descend :: "graph \<Rightarrow> string list \<Rightarrow> nat \<Rightarrow> string \<Rightarrow> string" where
  "descend g common 0 c = c"
| "descend g common (Suc k) c =
     (case filter (\<lambda>s. s \<in> set common) (successors g c) of
        [] \<Rightarrow> c
      | s # _ \<Rightarrow> descend g common k s)"

definition lowest_common_ancestor :: "graph \<Rightarrow> string \<Rightarrow> string \<Rightarrow> error + string option" where
  "lowest_common_ancestor g v w =
     (if \<not> is_directed_acyclic_graph g then Inl NetworkXError
      else if nodes g = [] then Inl NetworkXPointlessConcept
      else if v \<notin> set (nodes g) \<or> w \<notin> set (nodes g) then Inl NodeNotFound
      else (case common_ancestors g v w of
              [] \<Rightarrow> Inr None
            | c # _ \<Rightarrow> Inr (Some (descend g (common_ancestors g v w) (length (nodes g)) c))))"

section \<open>Bubbles\<close>

definition solve_bubble :: "rng \<Rightarrow> graph \<Rightarrow> string \<Rightarrow> string \<Rightarrow> error + graph \<times> rng" where
  "solve_bubble rng graph ancestor_node descendant_node =
     (case all_simple_paths graph ancestor_node descendant_node of
        Inl e \<Rightarrow> Inl e
      | Inr paths \<Rightarrow>
     (case map_err (path_average_weight graph) paths of
        Inl e \<Rightarrow> Inl e
      | Inr path_poid \<Rightarrow>
          select_best_path rng graph paths (map (\<lambda>path. int (length path)) paths) path_poid
                           False False))"

text \<open>The pairs of predecessors, in the order of the list comprehension.\<close>

definition combinations :: "string list \<Rightarrow> (string \<times> string) list" where
  "combinations ps =
     concat (map (\<lambda>i. map (\<lambda>j. (ps ! i, ps ! j)) (filter (\<lambda>j. i \<noteq> j) [i + 1 ..< length ps]))
                 [0 ..< length ps - 1])"

text \<open>
  The inner loop of \<^verbatim>\<open>simplify_bubbles\<close> stops at the first pair with an ancestor, the
  outer loop at the first node with such a pair; \<open>find_bubble\<close> returns the ancestor and
  the node the two loops stop at.
\<close>

fun scan_combinations :: "graph \<Rightarrow> (string \<times> string) list \<Rightarrow> error + string option" where
  "scan_combinations g [] = Inr None"
| "scan_combinations g (c # cs) =
     (case lowest_common_ancestor g (fst c) (snd c) of
        Inl e \<Rightarrow> Inl e
      | Inr (Some noeud_ancetre) \<Rightarrow> Inr (Some noeud_ancetre)
      | Inr None \<Rightarrow> scan_combinations g cs)"

fun scan_nodes :: "graph \<Rightarrow> string list \<Rightarrow> error + (string \<times> string) option" where
  "scan_nodes g [] = Inr None"
| "scan_nodes g (node # ns) =
     (let list_predecessors = predecessors g node
      in if length list_predecessors > 1
         then (case scan_combinations g (combinations list_predecessors) of
                 Inl e \<Rightarrow> Inl e
               | Inr (Some noeud_ancetre) \<Rightarrow> Inr (Some (noeud_ancetre, node))
               | Inr None \<Rightarrow> scan_nodes g ns)
         else scan_nodes g ns)"

definition find_bubble :: "graph \<Rightarrow> error + (string \<times> string) option" where
  "find_bubble g = scan_nodes g (nodes g)"

text \<open>
  The function calls itself on the graph \<^verbatim>\<open>solve_bubble\<close> returns, with nothing that
  bounds the number of calls: a run that never returns has the value \<open>None\<close>.
\<close>

partial_function (option) simplify_bubbles :: "rng \<Rightarrow> graph \<Rightarrow> (error + graph \<times> rng) option" where
  "simplify_bubbles rng graph =
     (case find_bubble graph of
        Inl e \<Rightarrow> Some (Inl e)
      | Inr None \<Rightarrow> Some (Inr (graph, rng))
      | Inr (Some b) \<Rightarrow>
          (case solve_bubble rng graph (fst b) (snd b) of
             Inl e \<Rightarrow> Some (Inl e)
           | Inr gr \<Rightarrow> simplify_bubbles (snd gr) (fst gr)))"

section \<open>Tips\<close>

definition solve_entry_tips :: "rng \<Rightarrow> graph \<Rightarrow> string list \<Rightarrow> error + graph \<times> rng" where
  "solve_entry_tips rng graph starting_nodes =
     (case map_err (\<lambda>p. all_simple_paths graph (snd p) (fst p))
             (concat (map (\<lambda>node. concat (map (\<lambda>start.
                        if length (predecessors graph node) > 1 then [(node, start)] else [])
                      starting_nodes)) (nodes graph))) of
        Inl e \<Rightarrow> Inl e
      | Inr path_list \<Rightarrow>
          if path_list \<noteq> [] then
            (case map_err (path_average_weight graph) (concat path_list) of
               Inl e \<Rightarrow> Inl e
             | Inr weight_avg \<Rightarrow>
                 select_best_path rng graph (concat path_list)
                   (map (\<lambda>path. int (length path)) (concat path_list)) weight_avg True False)
          else Inr (graph, rng))"

definition solve_out_tips :: "rng \<Rightarrow> graph \<Rightarrow> string list \<Rightarrow> error + graph \<times> rng" where
  "solve_out_tips rng graph ending_nodes =
     (case map_err (\<lambda>p. all_simple_paths graph (fst p) (snd p))
             (concat (map (\<lambda>node. concat (map (\<lambda>end.
                        if length (successors graph node) > 1 then [(node, end)] else [])
                      ending_nodes)) (nodes graph))) of
        Inl e \<Rightarrow> Inl e
      | Inr path_list \<Rightarrow>
          if path_list \<noteq> [] then
            (case map_err (path_average_weight graph) (concat path_list) of
               Inl e \<Rightarrow> Inl e
             | Inr weight_avg \<Rightarrow>
                 select_best_path rng graph (concat path_list)
                   (map (\<lambda>path. int (length path)) (concat path_list)) weight_avg False True)
          else Inr (graph, rng))"

section \<open>Contigs\<close>

text \<open>
  The inner loop of \<^verbatim>\<open>get_contigs\<close>: the sequence takes a node in full while it is
  empty and the last character of the node otherwise (\<^verbatim>\<open>node[-1]\<close> raises on \<^verbatim>\<open>""\<close>).
\<close>

fun contig_loop :: "string \<Rightarrow> string list \<Rightarrow> error + string" where
  "contig_loop contig_sequence [] = Inr contig_sequence"
| "contig_loop contig_sequence (node # ns) =
     (if length contig_sequence = 0 then contig_loop (contig_sequence @ node) ns
      else if node = [] then Inl IndexError
      else contig_loop (contig_sequence @ [last node]) ns)"

definition contig_tuple :: "string list \<Rightarrow> error + string \<times> nat" where
  "contig_tuple contig =
     (case contig_loop [] contig of
        Inl e \<Rightarrow> Inl e
      | Inr contig_sequence \<Rightarrow> Inr (contig_sequence, length contig_sequence))"

definition contigs_between :: "graph \<Rightarrow> string \<times> string \<Rightarrow> error + (string \<times> nat) list" where
  "contigs_between graph st =
     (case has_path graph (fst st) (snd st) of
        Inl e \<Rightarrow> Inl e
      | Inr False \<Rightarrow> Inr []
      | Inr True \<Rightarrow>
          (case all_simple_paths graph (fst st) (snd st) of
             Inl e \<Rightarrow> Inl e
           | Inr all_contigs \<Rightarrow> map_err contig_tuple all_contigs))"

definition get_contigs ::
  "graph \<Rightarrow> string list \<Rightarrow> string list \<Rightarrow> error + (string \<times> nat) list" where
  "get_contigs graph starting_nodes ending_nodes =
     (case map_err (contigs_between graph)
             (concat (map (\<lambda>node_start. map (\<lambda>node_target. (node_start, node_target))
                                             ending_nodes) starting_nodes)) of
        Inl e \<Rightarrow> Inl e
      | Inr ls \<Rightarrow> Inr (concat ls))"

section \<open>Graph objects in a store\<close>

text \<open>
  A Python graph is an object and \<^verbatim>\<open>remove_nodes_from\<close> changes it in place. To see
  which objects a call changes, the store is the list of the graph objects allocated so
  far and a reference is a position in it; \<^verbatim>\<open>copy\<close> allocates a new object.
\<close>

type_synonym store = "graph list"

definition copy_obj :: "store \<Rightarrow> nat \<Rightarrow> store \<times> nat" where
  "copy_obj s r = (s @ [copy (s ! r)], length s)"

definition remove_nodes_from_obj :: "store \<Rightarrow> nat \<Rightarrow> string list \<Rightarrow> store" where
  "remove_nodes_from_obj s r ns = s[r := remove_nodes_from (s ! r) ns]"

definition remove_paths_obj ::
  "store \<Rightarrow> nat \<Rightarrow> string list list \<Rightarrow> bool \<Rightarrow> bool \<Rightarrow> store \<times> nat" where
  "remove_paths_obj s graph path_list delete_entry_node delete_sink_node =
     (let (s1, new_graph) = copy_obj s graph
      in (foldl (\<lambda>s' path. remove_nodes_from_obj s' new_graph
                              (removed_nodes path delete_entry_node delete_sink_node))
                s1 path_list,
          new_graph))"

definition select_best_path_obj ::
  "rng \<Rightarrow> store \<Rightarrow> nat \<Rightarrow> string list list \<Rightarrow> int list \<Rightarrow> rat list \<Rightarrow> bool \<Rightarrow> bool
     \<Rightarrow> error + (store \<times> nat) \<times> rng" where
  "select_best_path_obj rng s graph path_list path_length weight_avg_list
                        delete_entry_node delete_sink_node =
     (case best_path_index rng path_list path_length weight_avg_list of
        Inl e \<Rightarrow> Inl e
      | Inr (i, rng') \<Rightarrow>
     (case py_get path_list i of
        Inl e \<Rightarrow> Inl e
      | Inr best_path \<Rightarrow>
          Inr (foldl (\<lambda>sg path. if path \<noteq> best_path
                                 then remove_paths_obj (fst sg) (snd sg) [path]
                                        delete_entry_node delete_sink_node
                                 else sg)
                     (s, graph) path_list,
               rng')))"

section \<open>Notions of the specification\<close>

text \<open>The edge relation, walks along edges and simple paths between two nodes.\<close>

definition edge_rel :: "graph \<Rightarrow> (string \<times> string) set" where
  "edge_rel g = fst ` set (edges g)"

fun is_walk :: "graph \<Rightarrow> string list \<Rightarrow> bool" where
  "is_walk g [] = True"
| "is_walk g [u] = True"
| "is_walk g (u # v # p) = ((u, v) \<in> edge_rel g \<and> is_walk g (v # p))"

definition simple_path :: "graph \<Rightarrow> string \<Rightarrow> string \<Rightarrow> string list \<Rightarrow> bool" where
  "simple_path g s t p \<longleftrightarrow> p \<noteq> [] \<and> hd p = s \<and> last p = t \<and> distinct p \<and> is_walk g p"

text \<open>The weights of the edges between consecutive nodes of a path.\<close>

fun path_weights :: "graph \<Rightarrow> string list \<Rightarrow> int list" where
  "path_weights g (u # v # p) = the (map_of (edges g) (u, v)) # path_weights g (v # p)"
| "path_weights g p = []"

text \<open>The contig of a path: the first node, then the last character of each other node.\<close>

definition contig_of :: "string list \<Rightarrow> string" where
  "contig_of p = hd p @ map last (tl p)"

text \<open>The first position of a list that holds its maximum.\<close>

definition first_max :: "'a::linorder list \<Rightarrow> nat \<Rightarrow> bool" where
  "first_max xs k \<longleftrightarrow>
     k < length xs \<and> (\<forall>j < length xs. xs ! j \<le> xs ! k) \<and> (\<forall>j < k. xs ! j < xs ! k)"

text \<open>The invariant of section 3: one edge at most for a pair, positive weights.\<close>

definition edge_invariant :: "graph \<Rightarrow> bool" where
  "edge_invariant g \<longleftrightarrow> distinct (map fst (edges g)) \<and> (\<forall>e \<in> set (edges g). 0 < snd e)"

text \<open>A well-formed graph that satisfies the invariant of section 3.\<close>

definition graph_invariant :: "graph \<Rightarrow> bool" where
  "graph_invariant g \<longleftrightarrow> wf_graph g \<and> edge_invariant g"

text \<open>
  No bubble: no node with more than one predecessor has two predecessors that a common
  node reaches.
\<close>

definition no_bubble :: "graph \<Rightarrow> bool" where
  "no_bubble g \<longleftrightarrow>
     (\<forall>node \<in> set (nodes g). 1 < length (predecessors g node) \<longrightarrow>
        (\<forall>p \<in> set (predecessors g node). \<forall>q \<in> set (predecessors g node).
           p \<noteq> q \<longrightarrow> \<not> (\<exists>a. (a, p) \<in> (edge_rel g)\<^sup>* \<and> (a, q) \<in> (edge_rel g)\<^sup>*)))"

text \<open>
  The graph left when every path of the list other than \<open>best\<close> has been removed, one
  call of \<^verbatim>\<open>remove_paths\<close> for each.
\<close>

definition removal :: "graph \<Rightarrow> string list list \<Rightarrow> string list \<Rightarrow> bool \<Rightarrow> bool \<Rightarrow> graph" where
  "removal g path_list best de ds =
     foldl (\<lambda>g p. remove_paths g [p] de ds) g (filter (\<lambda>p. p \<noteq> best) path_list)"


text \<open>
  The nodes that the paths of the list other than \<open>best\<close> have to lose under the two
  flags.
\<close>

definition deleted_nodes :: "string list list \<Rightarrow> string list \<Rightarrow> bool \<Rightarrow> bool \<Rightarrow> string set" where
  "deleted_nodes path_list best de ds =
     (\<Union>p \<in> {p \<in> set path_list. p \<noteq> best}. set (removed_nodes p de ds))"

text \<open>
  The graphs of the data model: a node is a string of length \<open>k - 1\<close>, so an edge joins
  two strings of the same length.
\<close>

definition equal_length_edges :: "graph \<Rightarrow> bool" where
  "equal_length_edges g \<longleftrightarrow> (\<forall>e \<in> set (edges g). length (fst (fst e)) = length (snd (fst e)))"

section \<open>Example graphs\<close>

text \<open>The bubble of section 8: two paths from \<open>A\<close> to \<open>D\<close>, of weights 5 and 1.\<close>

definition bubble_graph :: graph where
  "bubble_graph =
     \<lparr>nodes = [''A'', ''B'', ''C'', ''D''],
      edges = [((''A'', ''B''), 5), ((''B'', ''D''), 5), ((''A'', ''C''), 1), ((''C'', ''D''), 1)]\<rparr>"

definition bubble_paths :: "string list list" where
  "bubble_paths = [[''A'', ''B'', ''D''], [''A'', ''C'', ''D'']]"

definition bubble_solved :: graph where
  "bubble_solved =
     \<lparr>nodes = [''A'', ''B'', ''D''], edges = [((''A'', ''B''), 5), ((''B'', ''D''), 5)]\<rparr>"

text \<open>
  The reads \<^verbatim>\<open>ATTG\<close> and \<^verbatim>\<open>ATG\<close> give three 3-mers, once each, and a graph with the
  edges \<open>AT \<rightarrow> TT \<rightarrow> TG\<close> and \<open>AT \<rightarrow> TG\<close>. A copy of it lists the edges node by node.
\<close>

definition triangle_kmers :: kmer_dict where
  "triangle_kmers = [(''ATT'', 1), (''TTG'', 1), (''ATG'', 1)]"

definition triangle_graph :: graph where
  "triangle_graph =
     \<lparr>nodes = [''AT'', ''TT'', ''TG''],
      edges = [((''AT'', ''TT''), 1), ((''TT'', ''TG''), 1), ((''AT'', ''TG''), 1)]\<rparr>"

definition triangle_copy :: graph where
  "triangle_copy =
     \<lparr>nodes = [''AT'', ''TT'', ''TG''],
      edges = [((''AT'', ''TT''), 1), ((''AT'', ''TG''), 1), ((''TT'', ''TG''), 1)]\<rparr>"

text \<open>The same graph when the read \<^verbatim>\<open>ATG\<close> is seen ten times.\<close>

definition chord_graph :: graph where
  "chord_graph =
     \<lparr>nodes = [''AT'', ''TT'', ''TG''],
      edges = [((''AT'', ''TT''), 1), ((''TT'', ''TG''), 1), ((''AT'', ''TG''), 10)]\<rparr>"

definition triangle_paths :: "string list list" where
  "triangle_paths = [[''AT'', ''TT'', ''TG''], [''AT'', ''TG'']]"

text \<open>
  Two nodes with an edge to a third one, and the same graph with one more node that has
  an edge to itself (the 3-mers \<^verbatim>\<open>CTG\<close>, \<^verbatim>\<open>GTG\<close> and \<^verbatim>\<open>AAA\<close>).
\<close>

definition fork_graph :: graph where
  "fork_graph =
     \<lparr>nodes = [''CT'', ''TG'', ''GT''],
      edges = [((''CT'', ''TG''), 1), ((''GT'', ''TG''), 1)]\<rparr>"

definition loop_graph :: graph where
  "loop_graph =
     \<lparr>nodes = [''CT'', ''TG'', ''GT'', ''AA''],
      edges = [((''CT'', ''TG''), 1), ((''GT'', ''TG''), 1), ((''AA'', ''AA''), 1)]\<rparr>"

text \<open>What the entry-tip and the out-tip removal leave of the bubble.\<close>

definition entry_solved :: graph where
  "entry_solved = \<lparr>nodes = [''B'', ''D''], edges = [((''B'', ''D''), 5)]\<rparr>"

definition out_solved :: graph where
  "out_solved = \<lparr>nodes = [''A'', ''B''], edges = [((''A'', ''B''), 5)]\<rparr>"




definition overlap_weights :: "rat list" where
  "overlap_weights = [1, 32 / 3, 34 / 5]"


text \<open>A random source that always delivers 0.\<close>

definition zero_rng :: rng where
  "zero_rng = (\<lambda>_. 0)"

section \<open>Counting k-mers\<close>

lemma map_of_count_kmer:
  "map_of (count_kmer d k) = (map_of d)(k \<mapsto> (case map_of d k of Some c \<Rightarrow> c + 1 | None \<Rightarrow> 1))"
  by (simp add: count_kmer_def update_conv' split: option.split)

lemma distinct_count_kmer: "distinct (map fst d) \<Longrightarrow> distinct (map fst (count_kmer d k))"
  by (simp add: count_kmer_def distinct_update split: option.split)

lemma map_of_foldl_count_kmer:
  "map_of (foldl count_kmer d ks) k =
     (if count_list ks k = 0 then map_of d k
      else Some ((case map_of d k of Some c \<Rightarrow> c | None \<Rightarrow> 0) + int (count_list ks k)))"
proof (induction ks arbitrary: d)
  case Nil
  show ?case by simp
next
  case (Cons a ks)
  show ?case
    by (simp add: Cons.IH map_of_count_kmer split: option.split)
qed

lemma distinct_foldl_count_kmer:
  "distinct (map fst d) \<Longrightarrow> distinct (map fst (foldl count_kmer d ks))"
  by (induction ks arbitrary: d) (simp_all add: distinct_count_kmer)

lemma foldl_reads_concat:
  "foldl (\<lambda>d read. foldl count_kmer d (f read)) d reads = foldl count_kmer d (concat (map f reads))"
  by (induction reads arbitrary: d) simp_all

lemma count_list_concat: "count_list (concat xss) x = (\<Sum>xs\<leftarrow>xss. count_list xs x)"
  by (induction xss) simp_all

lemma count_list_map_upt: "count_list (map f [0..<n]) x = card {i. i < n \<and> f i = x}"
proof (induction n)
  case 0
  show ?case by simp
next
  case (Suc n)
  have fin: "finite {i. i < n \<and> f i = x}" by simp
  have eq: "{i. i < Suc n \<and> f i = x} = (if f n = x then insert n {i. i < n \<and> f i = x} else {i. i < n \<and> f i = x})"
    by (auto simp: less_Suc_eq)
  show ?case using Suc fin by (simp add: eq)
qed

lemma count_list_cut_kmer:
  "count_list (cut_kmer read 3) kmer = card {i. i + 3 \<le> length read \<and> take 3 (drop i read) = kmer}"
proof -
  have "{i. i < length read + 1 - 3 \<and> take 3 (drop i read) = kmer}
        = {i. i + 3 \<le> length read \<and> take 3 (drop i read) = kmer}"
    by auto
  then show ?thesis by (simp add: cut_kmer_def count_list_map_upt)
qed

lemma count_list_all_kmers:
  "count_list (concat (map (\<lambda>r. cut_kmer r 3) reads)) kmer = occurrences3 reads kmer"
  by (simp add: count_list_concat occurrences3_def comp_def count_list_cut_kmer)

text \<open>
  Claim C8. For every fastq input and any two values of the \<^verbatim>\<open>kmer_size\<close> argument,
  \<^verbatim>\<open>build_kmer_dict\<close> returns the same result, and when the file is read to its end the
  mapping returned gives exactly the strings that occur as a substring of length 3 of a
  read, each with the number of its occurrences.
\<close>

theorem build_kmer_dict_ignores_kmer_size:
  "build_kmer_dict fastq_file k1 = build_kmer_dict fastq_file k2 \<and>
   (\<forall>reads. read_fastq fastq_file = Inr reads \<longrightarrow>
      (\<exists>d. build_kmer_dict fastq_file k1 = Inr d \<and> distinct (map fst d) \<and>
           (\<forall>kmer. map_of d kmer =
              (if occurrences3 reads kmer = 0 then None
               else Some (int (occurrences3 reads kmer))))))"
proof (intro conjI allI impI)
  show "build_kmer_dict fastq_file k1 = build_kmer_dict fastq_file k2"
    by (simp add: build_kmer_dict_def)
next
  fix reads
  assume r: "read_fastq fastq_file = Inr reads"
  let ?d = "foldl count_kmer [] (concat (map (\<lambda>r. cut_kmer r 3) reads))"
  have 1: "build_kmer_dict fastq_file k1 = Inr ?d"
    by (simp add: build_kmer_dict_def r foldl_reads_concat)
  have 2: "distinct (map fst ?d)"
    by (rule distinct_foldl_count_kmer) simp
  have 3: "\<forall>kmer. map_of ?d kmer =
              (if occurrences3 reads kmer = 0 then None
               else Some (int (occurrences3 reads kmer)))"
    by (simp add: map_of_foldl_count_kmer count_list_all_kmers)
  from 1 2 3 show "\<exists>d. build_kmer_dict fastq_file k1 = Inr d \<and> distinct (map fst d) \<and>
           (\<forall>kmer. map_of d kmer =
              (if occurrences3 reads kmer = 0 then None
               else Some (int (occurrences3 reads kmer))))"
    by blast
qed

lemma ex_fastq: "read_fastq [''@r1'', ''ACGT'', ''+'', ''IIII''] = Inr [''ACGT'']"
  by (simp add: strip_def is_space_def)

theorem build_kmer_dict_ignores_kmer_size_witness:
  "read_fastq [''@r1'', ''ACGT'', ''+'', ''IIII''] = Inr [''ACGT''] \<and>
   build_kmer_dict [''@r1'', ''ACGT'', ''+'', ''IIII''] 22 = build_kmer_dict [''@r1'', ''ACGT'', ''+'', ''IIII''] 4 \<and>
   (\<exists>d. build_kmer_dict [''@r1'', ''ACGT'', ''+'', ''IIII''] 22 = Inr d \<and>
        map_of d ''CGT'' = (if occurrences3 [''ACGT''] ''CGT'' = 0 then None
               else Some (int (occurrences3 [''ACGT''] ''CGT''))))"
  using build_kmer_dict_ignores_kmer_size [of "[''@r1'', ''ACGT'', ''+'', ''IIII'']" 22 4] ex_fastq
  by blast

section \<open>Construction of the graph\<close>

subsection \<open>Association lists\<close>

lemma sum_update_absent:
  "map_of al k = None \<Longrightarrow> sum_list (map snd (AList.update k v al)) = sum_list (map snd al) + (v::int)"
  by (induction al) (auto split: if_splits)

lemma sum_update_present:
  "map_of al k = Some w \<Longrightarrow>
   sum_list (map snd (AList.update k v al)) = sum_list (map snd al) - w + (v::int)"
  by (induction al) (auto split: if_splits)

lemma set_update_subset: "set (AList.update k v al) \<subseteq> insert (k, v) (set al)"
  by (induction al) auto

subsection \<open>The edge list and the edge view\<close>

lemma mset_filter_split:
  "u \<notin> S \<Longrightarrow>
   mset (filter (\<lambda>e. f e = u) es) + mset (filter (\<lambda>e. f e \<in> S) es)
     = mset (filter (\<lambda>e. f e = u \<or> f e \<in> S) es)"
  by (induction es) auto

lemma mset_group_by:
  "distinct ns \<Longrightarrow>
   mset (concat (map (\<lambda>u. filter (\<lambda>e. f e = u) es) ns)) = mset (filter (\<lambda>e. f e \<in> set ns) es)"
proof (induction ns)
  case Nil
  show ?case by simp
next
  case (Cons u ns)
  then have "u \<notin> set ns" and d: "distinct ns" by simp_all
  from mset_filter_split [OF this(1), of f es] Cons.IH [OF d]
  show ?case by simp
qed

lemma mset_edges_data:
  assumes "distinct (nodes g)" and "\<forall>e \<in> set (edges g). fst (fst e) \<in> set (nodes g)"
  shows "mset (edges_data g) = mset (edges g)"
proof -
  have "filter (\<lambda>e. fst (fst e) \<in> set (nodes g)) (edges g) = edges g"
    using assms(2) by (simp add: filter_id_conv)
  with mset_group_by [OF assms(1), of "\<lambda>e. fst (fst e)" "edges g"]
  show ?thesis by (simp add: edges_data_def)
qed

lemma total_weight_edges:
  assumes "wf_graph g"
  shows "total_weight g = sum_list (map snd (edges g))"
proof -
  have "mset (edges_data g) = mset (edges g)"
    using assms by (intro mset_edges_data) (simp_all add: wf_graph_def)
  then have "mset (map snd (edges_data g)) = mset (map snd (edges g))"
    by (metis mset_map)
  then show ?thesis
    unfolding total_weight_def by (metis sum_mset_sum_list)
qed

subsection \<open>Construction\<close>

lemma wf_empty_graph: "wf_graph empty_graph"
  by (simp add: wf_graph_def empty_graph_def)

lemma wf_add_node: "wf_graph g \<Longrightarrow> wf_graph (add_node g n)"
  by (auto simp: wf_graph_def add_node_def)

lemma nodes_add_node: "set (nodes (add_node g n)) = insert n (set (nodes g))"
  by (auto simp: add_node_def)

lemma edges_add_node: "edges (add_node g n) = edges g"
  by (simp add: add_node_def)

lemma wf_update_edge:
  assumes "wf_graph g" "u \<in> set (nodes g)" "v \<in> set (nodes g)"
  shows "wf_graph (g\<lparr>edges := AList.update (u, v) w (edges g)\<rparr>)"
proof -
  have "\<forall>e \<in> set (AList.update (u, v) w (edges g)).
          fst (fst e) \<in> set (nodes g) \<and> snd (fst e) \<in> set (nodes g)"
    using assms set_update_subset [of "(u, v)" w "edges g"]
    by (auto simp: wf_graph_def)
  then show ?thesis
    using assms by (simp add: wf_graph_def distinct_update)
qed

lemma step_nodes_props:
  "wf_graph g \<Longrightarrow> wf_graph (step_nodes g kmer)"
  "edges (step_nodes g kmer) = edges g"
  "butlast kmer \<in> set (nodes (step_nodes g kmer))"
  "drop 1 kmer \<in> set (nodes (step_nodes g kmer))"
  by (auto simp: step_nodes_def Let_def has_node_def wf_add_node edges_add_node nodes_add_node)

lemma build_graph_step_eq:
  "build_graph_step g (kmer, c) =
     (let g2 = step_nodes g kmer in
      g2\<lparr>edges := AList.update (butlast kmer, drop 1 kmer)
          ((case map_of (edges g2) (butlast kmer, drop 1 kmer) of Some w \<Rightarrow> w + c | None \<Rightarrow> c))
          (edges g2)\<rparr>)"
  using step_nodes_props(3,4) [of kmer g]
  by (auto simp: build_graph_step_def step_nodes_def Let_def has_edge_def add_edge_def add_node_def has_node_def)

lemma wf_build_graph_step:
  assumes "wf_graph g"
  shows "wf_graph (build_graph_step g kc)"
proof -
  obtain kmer c where kc: "kc = (kmer, c)" by (cases kc)
  show ?thesis
    unfolding kc build_graph_step_eq Let_def
    by (rule wf_update_edge) (rule step_nodes_props(1) [OF assms] step_nodes_props(3,4))+
qed

lemma sum_build_graph_step:
  "sum_list (map snd (edges (build_graph_step g kc))) = sum_list (map snd (edges g)) + snd kc"
  by (cases kc)
     (simp add: build_graph_step_eq Let_def step_nodes_props sum_update_absent sum_update_present
           split: option.split)

lemma foldl_build_graph_step:
  "wf_graph g \<Longrightarrow>
   wf_graph (foldl build_graph_step g kd) \<and>
   sum_list (map snd (edges (foldl build_graph_step g kd)))
     = sum_list (map snd (edges g)) + sum_list (map snd kd)"
  by (induction kd arbitrary: g) (simp_all add: wf_build_graph_step sum_build_graph_step)

lemma wf_build_graph: "wf_graph (build_graph kd)"
  using foldl_build_graph_step [OF wf_empty_graph] by (simp add: build_graph_def)

text \<open>
  Claim C5. For every k-mer count mapping, the sum of the weights of all edges of the
  graph returned by \<^verbatim>\<open>build_graph\<close> equals the sum of all counts of the mapping.
\<close>

theorem build_graph_weight_conservation:
  "total_weight (build_graph kmer_dict) = sum_list (map snd kmer_dict)"
proof -
  have "sum_list (map snd (edges (build_graph kmer_dict))) = sum_list (map snd kmer_dict)"
    using foldl_build_graph_step [OF wf_empty_graph, of kmer_dict]
    by (simp add: build_graph_def empty_graph_def)
  then show ?thesis
    by (simp add: total_weight_edges [OF wf_build_graph])
qed

section \<open>Selection of the best path\<close>

subsection \<open>The sign of a deviation\<close>

lemma float_of_root_zero: "float_of_root 0 = 0"
  by (simp add: float_of_root_def)

lemma float_of_root_large:
  assumes "1 / 2 ^ 500 \<le> x"
  shows "float_of_root x = x" and "0 < x"
proof -
  have "(2::real) ^ 500 < 2 ^ 1075" by (rule power_strict_increasing) simp_all
  then have "(1::real) / 2 ^ 1075 < 1 / 2 ^ 500" by (simp add: frac_less2)
  with assms have "1 / 2 ^ 1075 < x" by simp
  then show "float_of_root x = x" by (simp add: float_of_root_def)
  have "(0::real) < 1 / 2 ^ 500" by simp
  with assms show "0 < x" by simp
qed

lemma sqrt_quarter: assumes "1 / 4 \<le> v" shows "1 / 2 ^ 500 \<le> sqrt v"
proof -
  have "sqrt (1 / 4) \<le> sqrt v" using assms by simp
  moreover have "sqrt (1 / 4) = 1 / 2" by (simp add: real_sqrt_divide)
  moreover have "(1::real) / 2 ^ 500 \<le> 1 / 2 ^ 1"
    by (rule divide_left_mono) (simp_all add: power_increasing del: power_one_right)
  ultimately show ?thesis by simp
qed

lemma stdev_simps:
  "2 \<le> length xs \<Longrightarrow> variance xs = 0 \<Longrightarrow> stdev xs = Inr 0"
  "2 \<le> length xs \<Longrightarrow> 1 / 4 \<le> variance xs \<Longrightarrow> stdev xs = Inr (sqrt (of_rat (variance xs)))"
proof -
  show "2 \<le> length xs \<Longrightarrow> variance xs = 0 \<Longrightarrow> stdev xs = Inr 0"
    by (simp add: stdev_def float_of_root_zero)
  assume l: "2 \<le> length xs" and v: "1 / 4 \<le> variance xs"
  from v have "real_of_rat (1 / 4) \<le> of_rat (variance xs)" by (simp only: of_rat_less_eq)
  then have "1 / 4 \<le> real_of_rat (variance xs)" by (simp add: of_rat_divide)
  from float_of_root_large(1) [OF sqrt_quarter [OF this]] l
  show "stdev xs = Inr (sqrt (of_rat (variance xs)))" by (simp add: stdev_def)
qed

subsection \<open>Maximum and first position\<close>







subsection \<open>Nodes after a removal\<close>

lemma nodes_copy: "nodes (copy g) = nodes g"
  by (simp add: copy_def)

lemma nodes_remove_paths:
  "nodes (remove_paths g ps de ds)
     = filter (\<lambda>n. \<forall>p \<in> set ps. n \<notin> set (removed_nodes p de ds)) (nodes g)"
proof -
  have "nodes (foldl (\<lambda>h p. remove_nodes_from h (removed_nodes p de ds)) h ps)
          = filter (\<lambda>n. \<forall>p \<in> set ps. n \<notin> set (removed_nodes p de ds)) (nodes h)" for h
    by (induction ps arbitrary: h) (simp_all add: remove_nodes_from_def conj_commute)
  then show ?thesis by (simp add: remove_paths_def nodes_copy)
qed

lemma nodes_foldl_remove_paths:
  "nodes (foldl (\<lambda>g p. remove_paths g [p] de ds) g ps)
     = filter (\<lambda>n. \<forall>p \<in> set ps. n \<notin> set (removed_nodes p de ds)) (nodes g)"
  by (induction ps arbitrary: g) (simp_all add: nodes_remove_paths conj_commute)

subsection \<open>The selection\<close>


lemma best_path_index_bubble:
  "best_path_index rng bubble_paths [3, 3] [5, 1] = Inr (0, rng)"
  by (simp add: best_path_index_def stdev_simps variance_def power2_eq_square bubble_paths_def)

lemma remove_paths_bubble:
  "remove_paths bubble_graph [[''A'', ''C'', ''D'']] False False = bubble_solved"
  by (simp add: remove_paths_def copy_def edges_data_def bubble_graph_def bubble_solved_def
        remove_nodes_from_def removed_nodes_def)

section \<open>One candidate path; graph objects\<close>

text \<open>
  Claim C2. With exactly one candidate path the first statement of
  \<^verbatim>\<open>select_best_path\<close> asks for the standard deviation of a single value, which raises
  \<^verbatim>\<open>StatisticsError\<close>: no path is selected and no graph is returned.
\<close>

theorem select_best_path_one_path:
  "select_best_path rng graph [path] [l] [w] de ds = Inl StatisticsError"
  by (simp add: select_best_path_def best_path_index_def stdev_def)

subsection \<open>Objects\<close>

lemma foldl_update_last:
  "foldl (\<lambda>s' p. s'[length s := f (s' ! length s) p]) (s @ [x]) ps = s @ [foldl f x ps]"
  by (induction ps arbitrary: x) simp_all

lemma remove_paths_obj_eq:
  "remove_paths_obj s graph path_list de ds
     = (s @ [remove_paths (s ! graph) path_list de ds], length s)"
  using foldl_update_last
          [of s "\<lambda>g p. remove_nodes_from g (removed_nodes p de ds)" "copy (s ! graph)" path_list]
  by (simp add: remove_paths_obj_def copy_obj_def remove_nodes_from_obj_def remove_paths_def)

lemma select_loop_obj:
  assumes "take n s = s0" "r < length s" "n \<le> length s"
  shows "\<exists>s' r'. foldl (\<lambda>sg path. if path \<noteq> best
                                 then remove_paths_obj (fst sg) (snd sg) [path] de ds
                                 else sg) (s, r) ps = (s', r') \<and>
           take n s' = s0 \<and> r' < length s' \<and> n \<le> length s' \<and>
           s' ! r' = foldl (\<lambda>g path. if path \<noteq> best then remove_paths g [path] de ds else g)
                           (s ! r) ps"
  using assms
proof (induction ps arbitrary: s r)
  case Nil
  then show ?case by simp
next
  case (Cons p ps)
  show ?case
  proof (cases "p \<noteq> best")
    case True
    let ?s1 = "s @ [remove_paths (s ! r) [p] de ds]"
    have "take n ?s1 = s0" "length s < length ?s1" "n \<le> length ?s1"
      using Cons.prems by simp_all
    from Cons.IH [OF this] True show ?thesis
      by (simp add: remove_paths_obj_eq)
  next
    case False
    with Cons.IH [OF Cons.prems] show ?thesis by simp
  qed
qed

text \<open>
  Claim C10. For every graph object, path list and flags, \<^verbatim>\<open>remove_paths\<close> leaves the
  object it is given, and every other object of the store, as it was: the removal is done
  on a new object, which is the one returned. The same holds of \<^verbatim>\<open>select_best_path\<close>
  when it returns, and the object it returns holds the graph the function computes.
\<close>

theorem remove_paths_leaves_input_object:
  assumes "graph < length s"
  shows "(\<exists>s'. remove_paths_obj s graph path_list de ds = (s', length s) \<and>
               take (length s) s' = s \<and> s' ! graph = s ! graph \<and>
               s' ! length s = remove_paths (s ! graph) path_list de ds) \<and>
         (\<forall>s' r' rng'.
            select_best_path_obj rng s graph path_list path_length weight_avg_list de ds
              = Inr ((s', r'), rng') \<longrightarrow>
            take (length s) s' = s \<and> s' ! graph = s ! graph \<and>
            select_best_path rng (s ! graph) path_list path_length weight_avg_list de ds
              = Inr (s' ! r', rng'))"
proof (intro conjI allI impI)
  show "\<exists>s'. remove_paths_obj s graph path_list de ds = (s', length s) \<and>
          take (length s) s' = s \<and> s' ! graph = s ! graph \<and>
          s' ! length s = remove_paths (s ! graph) path_list de ds"
    using assms by (simp add: remove_paths_obj_eq nth_append)
next
  fix s' r' rng'
  assume run: "select_best_path_obj rng s graph path_list path_length weight_avg_list de ds
                 = Inr ((s', r'), rng')"
  then obtain i best where
    i: "best_path_index rng path_list path_length weight_avg_list = Inr (i, rng')"
    and best: "py_get path_list i = Inr best"
    and loop: "foldl (\<lambda>sg path. if path \<noteq> best
                                 then remove_paths_obj (fst sg) (snd sg) [path] de ds
                                 else sg) (s, graph) path_list = (s', r')"
    by (auto simp: select_best_path_obj_def split: sum.splits prod.splits)
  from select_loop_obj [of "length s" s s graph best de ds path_list] assms loop
  have s': "take (length s) s' = s"
    and r': "s' ! r' = foldl (\<lambda>g path. if path \<noteq> best then remove_paths g [path] de ds else g)
                           (s ! graph) path_list"
    by auto
  show "take (length s) s' = s" by (rule s')
  have "s' ! graph = take (length s) s' ! graph" using assms by simp
  then show "s' ! graph = s ! graph" by (simp add: s')
  show "select_best_path rng (s ! graph) path_list path_length weight_avg_list de ds
              = Inr (s' ! r', rng')"
    by (simp add: select_best_path_def i best r')
qed

theorem remove_paths_leaves_input_object_witness:
  "(0::nat) < length [bubble_graph] \<and>
   select_best_path_obj (\<lambda>_. 0) [bubble_graph] 0 bubble_paths [3, 3] [5, 1] False False
     = Inr (([bubble_graph, bubble_solved], 1), \<lambda>_. 0) \<and>
   take (length [bubble_graph]) [bubble_graph, bubble_solved] = [bubble_graph] \<and>
   [bubble_graph, bubble_solved] ! 0 = [bubble_graph] ! 0 \<and>
   select_best_path (\<lambda>_. 0) ([bubble_graph] ! 0) bubble_paths [3, 3] [5, 1] False False
     = Inr ([bubble_graph, bubble_solved] ! 1, \<lambda>_. 0)"
proof -
  have h: "(0::nat) < length [bubble_graph]" by simp
  have run: "select_best_path_obj (\<lambda>_. 0) [bubble_graph] 0 bubble_paths [3, 3] [5, 1] False False
               = Inr (([bubble_graph, bubble_solved], 1), \<lambda>_. 0)"
    using remove_paths_bubble
    by (simp add: select_best_path_obj_def best_path_index_bubble [unfolded bubble_paths_def]
          py_get_def bubble_paths_def remove_paths_obj_eq)
  from remove_paths_leaves_input_object
         [OF h, of bubble_paths False False "\<lambda>_. 0" "[3, 3]" "[5, 1]"]
       h run
  show ?thesis by blast
qed

section \<open>Acyclic graphs and graphs without a bubble\<close>

lemma has_edge_iff: "has_edge g u v \<longleftrightarrow> (u, v) \<in> edge_rel g"
  by (simp add: has_edge_def edge_rel_def map_of_eq_None_iff)

lemma in_predecessors: "u \<in> set (predecessors g v) \<longleftrightarrow> (u, v) \<in> edge_rel g"
  by (force simp: predecessors_def edge_rel_def)

lemma in_successors: "v \<in> set (successors g u) \<longleftrightarrow> (u, v) \<in> edge_rel g"
  by (force simp: successors_def edge_rel_def)

lemma edge_rel_nodes:
  "wf_graph g \<Longrightarrow> (u, v) \<in> edge_rel g \<Longrightarrow> u \<in> set (nodes g) \<and> v \<in> set (nodes g)"
  by (force simp: wf_graph_def edge_rel_def)

lemma finite_edge_rel: "finite (edge_rel g)"
  by (simp add: edge_rel_def)

subsection \<open>The acyclicity test\<close>

lemma peel_round_shrinks:
  assumes "acyclic (edge_rel g)" "ns \<noteq> []"
  shows "length (filter (\<lambda>v. \<exists>u \<in> set ns. has_edge g u v) ns) < length ns"
proof -
  have "wf (edge_rel g)"
    using finite_edge_rel assms(1) by (rule finite_acyclic_wf)
  moreover from assms(2) obtain x where "x \<in> set ns" by (cases ns) auto
  ultimately obtain z where z: "z \<in> set ns" "\<And>y. (y, z) \<in> edge_rel g \<Longrightarrow> y \<notin> set ns"
    by (rule wfE_min) blast
  then have "\<not> (\<exists>u \<in> set ns. has_edge g u z)"
    by (auto simp: has_edge_iff)
  with z(1) show ?thesis by (rule length_filter_less)
qed

lemma length_peel:
  "acyclic (edge_rel g) \<Longrightarrow> length (peel g k ns) \<le> length ns - k"
proof (induction k arbitrary: ns)
  case 0
  show ?case by simp
next
  case (Suc k)
  let ?ns' = "filter (\<lambda>v. \<exists>u \<in> set ns. has_edge g u v) ns"
  show ?case
  proof (cases "ns = []")
    case True
    with Suc.IH [OF Suc.prems, of "[]"] show ?thesis by simp
  next
    case False
    from peel_round_shrinks [OF Suc.prems False] have "length ?ns' < length ns" .
    with Suc.IH [OF Suc.prems, of ?ns'] show ?thesis by simp
  qed
qed

lemma acyclic_is_dag: "acyclic (edge_rel g) \<Longrightarrow> is_directed_acyclic_graph g"
  using length_peel [of g "length (nodes g)" "nodes g"]
  by (simp add: is_directed_acyclic_graph_def)

lemma cycle_survives_peel:
  assumes "\<forall>y \<in> C. \<exists>z \<in> C. (z, y) \<in> edge_rel g" "C \<subseteq> set ns"
  shows "C \<subseteq> set (peel g k ns)"
  using assms(2)
proof (induction k arbitrary: ns)
  case 0
  then show ?case by simp
next
  case (Suc k)
  have "C \<subseteq> set (filter (\<lambda>v. \<exists>u \<in> set ns. has_edge g u v) ns)"
    using assms(1) Suc.prems by (auto simp: has_edge_iff)
  from Suc.IH [OF this] show ?case by simp
qed

lemma is_dag_acyclic:
  assumes "wf_graph g" "is_directed_acyclic_graph g"
  shows "acyclic (edge_rel g)"
proof (rule acyclicI, rule allI, rule notI)
  fix x
  assume x: "(x, x) \<in> (edge_rel g)\<^sup>+"
  let ?C = "{y. (y, y) \<in> (edge_rel g)\<^sup>+}"
  have closed: "\<forall>y \<in> ?C. \<exists>z \<in> ?C. (z, y) \<in> edge_rel g"
  proof
    fix y assume "y \<in> ?C"
    then have "(y, y) \<in> (edge_rel g)\<^sup>+" by simp
    then obtain z where z: "(y, z) \<in> (edge_rel g)\<^sup>*" "(z, y) \<in> edge_rel g"
      by (blast dest: tranclD2)
    then have "(z, z) \<in> (edge_rel g)\<^sup>+" by (rule_tac rtrancl_into_trancl2)
    with z(2) show "\<exists>z \<in> ?C. (z, y) \<in> edge_rel g" by blast
  qed
  have "?C \<subseteq> set (nodes g)"
    using closed edge_rel_nodes [OF assms(1)] by blast
  from cycle_survives_peel [OF closed this, of "length (nodes g)"] assms(2) x
  show False by (auto simp: is_directed_acyclic_graph_def)
qed

subsection \<open>Ancestors\<close>

lemma reach_sound:
  assumes "\<And>x y. y \<in> set (nb x) \<Longrightarrow> (y, x) \<in> r"
  shows "y \<in> set (reach nb k S) \<Longrightarrow> \<exists>x \<in> set S. (y, x) \<in> r\<^sup>*"
proof (induction k arbitrary: S)
  case 0
  then show ?case by auto
next
  case (Suc k)
  from Suc.prems have "y \<in> set (reach nb k (remdups (S @ concat (map nb S))))" by simp
  from Suc.IH [OF this]
  obtain x where x: "x \<in> set (remdups (S @ concat (map nb S)))" "(y, x) \<in> r\<^sup>*"
    by blast
  show ?case
  proof (cases "x \<in> set S")
    case True
    with x(2) show ?thesis by blast
  next
    case False
    with x(1) obtain s where "s \<in> set S" "x \<in> set (nb s)" by auto
    with assms x(2) show ?thesis
      by (meson rtrancl.rtrancl_into_rtrancl)
  qed
qed

lemma ancestors_self_sound:
  "c \<in> set (ancestors_self g v) \<Longrightarrow> (c, v) \<in> (edge_rel g)\<^sup>*"
  using reach_sound [of "predecessors g" "edge_rel g" c "length (nodes g)" "[v]"]
  by (auto simp: ancestors_self_def in_predecessors)

lemma common_ancestors_sound:
  "c \<in> set (common_ancestors g v w) \<Longrightarrow> (c, v) \<in> (edge_rel g)\<^sup>* \<and> (c, w) \<in> (edge_rel g)\<^sup>*"
  by (simp add: common_ancestors_def ancestors_self_sound)

subsection \<open>A scan that finds nothing\<close>

lemma distinct_predecessors: "wf_graph g \<Longrightarrow> distinct (predecessors g v)"
proof -
  assume "wf_graph g"
  then have d: "distinct (map fst (edges g))" by (simp add: wf_graph_def)
  have "distinct (map fst (filter (\<lambda>e. snd (fst e) = v) (edges g)))"
    using d by (simp add: distinct_map_filter)
  moreover have "inj_on fst (set (map fst (filter (\<lambda>e. snd (fst e) = v) (edges g))))"
    by (auto simp: inj_on_def)
  ultimately have "distinct (map fst (map fst (filter (\<lambda>e. snd (fst e) = v) (edges g))))"
    by (simp only: distinct_map) 
  then show ?thesis by (simp add: predecessors_def comp_def)
qed

lemma combinations_distinct:
  assumes "distinct ps" "c \<in> set (combinations ps)"
  shows "fst c \<in> set ps \<and> snd c \<in> set ps \<and> fst c \<noteq> snd c"
proof -
  from assms(2) obtain i j where "i < length ps - 1" "i + 1 \<le> j" "j < length ps" "c = (ps ! i, ps ! j)"
    by (auto simp: combinations_def)
  with assms(1) show ?thesis by (auto simp: nth_eq_iff_index_eq)
qed

lemma lca_None:
  assumes "wf_graph g" "acyclic (edge_rel g)" "v \<in> set (nodes g)" "w \<in> set (nodes g)"
    and "\<not> (\<exists>a. (a, v) \<in> (edge_rel g)\<^sup>* \<and> (a, w) \<in> (edge_rel g)\<^sup>*)"
  shows "lowest_common_ancestor g v w = Inr None"
proof -
  have "common_ancestors g v w = []"
  proof (cases "common_ancestors g v w")
    case Nil
    then show ?thesis .
  next
    case (Cons c cs)
    then have "c \<in> set (common_ancestors g v w)" by simp
    from common_ancestors_sound [OF this] assms(5) show ?thesis by blast
  qed
  moreover have "nodes g \<noteq> []" using assms(3) by auto
  ultimately show ?thesis
    using assms(3,4) acyclic_is_dag [OF assms(2)] by (simp add: lowest_common_ancestor_def)
qed

lemma scan_combinations_None:
  assumes "\<forall>c \<in> set cs. lowest_common_ancestor g (fst c) (snd c) = Inr None"
  shows "scan_combinations g cs = Inr None"
  using assms by (induction cs) simp_all

lemma scan_nodes_None:
  assumes "wf_graph g" "acyclic (edge_rel g)" "no_bubble g" "set ns \<subseteq> set (nodes g)"
  shows "scan_nodes g ns = Inr None"
  using assms(4)
proof (induction ns)
  case Nil
  show ?case by simp
next
  case (Cons node ns)
  then have node: "node \<in> set (nodes g)" and rest: "scan_nodes g ns = Inr None" by simp_all
  show ?case
  proof (cases "1 < length (predecessors g node)")
    case False
    with rest show ?thesis by simp
  next
    case True
    have "\<forall>c \<in> set (combinations (predecessors g node)).
            lowest_common_ancestor g (fst c) (snd c) = Inr None"
    proof
      fix c assume "c \<in> set (combinations (predecessors g node))"
      from combinations_distinct [OF distinct_predecessors [OF assms(1)] this]
      have c: "fst c \<in> set (predecessors g node)" "snd c \<in> set (predecessors g node)"
        "fst c \<noteq> snd c" by simp_all
      then have "fst c \<in> set (nodes g)" "snd c \<in> set (nodes g)"
        using edge_rel_nodes [OF assms(1)] by (auto simp: in_predecessors)
      moreover have "\<not> (\<exists>a. (a, fst c) \<in> (edge_rel g)\<^sup>* \<and> (a, snd c) \<in> (edge_rel g)\<^sup>*)"
        using assms(3) node True c unfolding no_bubble_def by blast
      ultimately show "lowest_common_ancestor g (fst c) (snd c) = Inr None"
        by (intro lca_None [OF assms(1,2)])
    qed
    from scan_combinations_None [OF this] rest True show ?thesis by simp
  qed
qed

text \<open>
  Claim C6, amended. For every acyclic graph containing no bubble (no node with more
  than one predecessor has two predecessors that a common node reaches),
  \<^verbatim>\<open>simplify_bubbles\<close> returns the graph it was given, with the same nodes, edges and
  weights, and draws nothing from the random source.
\<close>

theorem simplify_bubbles_no_bubble:
  assumes "wf_graph g" "acyclic (edge_rel g)" "no_bubble g"
  shows "simplify_bubbles rng g = Some (Inr (g, rng))"
proof -
  have "find_bubble g = Inr None"
    unfolding find_bubble_def by (rule scan_nodes_None [OF assms]) simp
  then show ?thesis by (subst simplify_bubbles.simps) simp
qed

section \<open>Bubble search on the example graphs\<close>

lemma no_in_edge_rtrancl: "(a, v) \<in> r\<^sup>* \<Longrightarrow> \<forall>u. (u, v) \<notin> r \<Longrightarrow> a = v"
  by (erule rtranclE) auto

lemma wf_fork_graph: "wf_graph fork_graph"
  by (simp add: wf_graph_def fork_graph_def)

lemma wf_loop_graph: "wf_graph loop_graph"
  by (simp add: wf_graph_def loop_graph_def)

lemma nodes_example:
  "nodes fork_graph = [''CT'', ''TG'', ''GT'']"
  "nodes loop_graph = [''CT'', ''TG'', ''GT'', ''AA'']"
  by (simp_all add: fork_graph_def loop_graph_def)

lemma fork_predecessors:
  "predecessors fork_graph ''CT'' = []" "predecessors fork_graph ''GT'' = []"
  "predecessors fork_graph ''TG'' = [''CT'', ''GT'']"
  by (simp_all add: fork_graph_def predecessors_def)

lemma loop_predecessors:
  "predecessors loop_graph ''CT'' = []" "predecessors loop_graph ''GT'' = []"
  "predecessors loop_graph ''TG'' = [''CT'', ''GT'']" "predecessors loop_graph ''AA'' = [''AA'']"
  by (simp_all add: loop_graph_def predecessors_def)

lemma no_bubble_fork_graph: "no_bubble fork_graph"
proof -
  have 1: "a = ''CT''" if "(a, ''CT'') \<in> (edge_rel fork_graph)\<^sup>*" for a
    using that by (rule no_in_edge_rtrancl) (simp add: edge_rel_def fork_graph_def)
  have 2: "a = ''GT''" if "(a, ''GT'') \<in> (edge_rel fork_graph)\<^sup>*" for a
    using that by (rule no_in_edge_rtrancl) (simp add: edge_rel_def fork_graph_def)
  have key: "\<not> (\<exists>a. (a, p) \<in> (edge_rel fork_graph)\<^sup>* \<and> (a, q) \<in> (edge_rel fork_graph)\<^sup>*)"
    if "p \<in> {''CT'', ''GT''}" "q \<in> {''CT'', ''GT''}" "p \<noteq> q" for p q
    using that 1 2 by auto
  show ?thesis
    unfolding no_bubble_def
  proof (intro ballI impI)
    fix node p q
    assume node: "node \<in> set (nodes fork_graph)" "1 < length (predecessors fork_graph node)"
      and pq: "p \<in> set (predecessors fork_graph node)" "q \<in> set (predecessors fork_graph node)" "p \<noteq> q"
    from node have "node = ''TG''"
      by (auto simp: nodes_example fork_predecessors)
    with pq have "p \<in> {''CT'', ''GT''}" "q \<in> {''CT'', ''GT''}"
      by (simp_all add: fork_predecessors)
    from key [OF this pq(3)]
    show "\<not> (\<exists>a. (a, p) \<in> (edge_rel fork_graph)\<^sup>* \<and> (a, q) \<in> (edge_rel fork_graph)\<^sup>*)" .
  qed
qed

lemma no_bubble_loop_graph: "no_bubble loop_graph"
proof -
  have 1: "a = ''CT''" if "(a, ''CT'') \<in> (edge_rel loop_graph)\<^sup>*" for a
    using that by (rule no_in_edge_rtrancl) (simp add: edge_rel_def loop_graph_def)
  have 2: "a = ''GT''" if "(a, ''GT'') \<in> (edge_rel loop_graph)\<^sup>*" for a
    using that by (rule no_in_edge_rtrancl) (simp add: edge_rel_def loop_graph_def)
  have key: "\<not> (\<exists>a. (a, p) \<in> (edge_rel loop_graph)\<^sup>* \<and> (a, q) \<in> (edge_rel loop_graph)\<^sup>*)"
    if "p \<in> {''CT'', ''GT''}" "q \<in> {''CT'', ''GT''}" "p \<noteq> q" for p q
    using that 1 2 by auto
  show ?thesis
    unfolding no_bubble_def
  proof (intro ballI impI)
    fix node p q
    assume node: "node \<in> set (nodes loop_graph)" "1 < length (predecessors loop_graph node)"
      and pq: "p \<in> set (predecessors loop_graph node)" "q \<in> set (predecessors loop_graph node)" "p \<noteq> q"
    from node have "node = ''TG''"
      by (auto simp: nodes_example loop_predecessors)
    with pq have "p \<in> {''CT'', ''GT''}" "q \<in> {''CT'', ''GT''}"
      by (simp_all add: loop_predecessors)
    from key [OF this pq(3)]
    show "\<not> (\<exists>a. (a, p) \<in> (edge_rel loop_graph)\<^sup>* \<and> (a, q) \<in> (edge_rel loop_graph)\<^sup>*)" .
  qed
qed

lemma fork_graph_is_dag: "is_directed_acyclic_graph fork_graph"
  by (simp add: is_directed_acyclic_graph_def fork_graph_def has_edge_def)

lemma loop_graph_not_dag: "\<not> is_directed_acyclic_graph loop_graph"
  by (simp add: is_directed_acyclic_graph_def loop_graph_def has_edge_def)

lemma combinations_two: "combinations [p, q] = [(p, q)]"
  by (simp add: combinations_def upt_rec)

lemma build_graph_loop_graph:
  "build_graph [(''CTG'', 1), (''GTG'', 1), (''AAA'', 1)] = loop_graph"
  by (simp add: build_graph_def loop_graph_def build_graph_step_def
       empty_graph_def has_node_def add_node_def has_edge_def add_edge_def Let_def)

theorem simplify_bubbles_no_bubble_witness:
  "wf_graph fork_graph \<and> acyclic (edge_rel fork_graph) \<and> no_bubble fork_graph \<and>
   simplify_bubbles zero_rng fork_graph = Some (Inr (fork_graph, zero_rng))"
proof -
  have a: "acyclic (edge_rel fork_graph)"
    using wf_fork_graph fork_graph_is_dag by (rule is_dag_acyclic)
  from simplify_bubbles_no_bubble [OF wf_fork_graph a no_bubble_fork_graph, of zero_rng]
       wf_fork_graph a no_bubble_fork_graph
  show ?thesis by simp
qed

text \<open>
  Claim C6 as stated fails on a graph with a cycle: \<open>loop_graph\<close> contains no bubble, and
  the search for the ancestor of the two predecessors of \<open>TG\<close> raises, because a node
  elsewhere in the graph has an edge to itself.
\<close>

theorem simplify_bubbles_no_bubble_counterexample:
  "wf_graph loop_graph \<and> no_bubble loop_graph \<and>
   build_graph [(''CTG'', 1), (''GTG'', 1), (''AAA'', 1)] = loop_graph \<and>
   simplify_bubbles zero_rng loop_graph = Some (Inl NetworkXError)"
proof -
  have "lowest_common_ancestor loop_graph ''CT'' ''GT'' = Inl NetworkXError"
    by (simp add: lowest_common_ancestor_def loop_graph_not_dag)
  then have "scan_nodes loop_graph [''CT'', ''TG'', ''GT'', ''AA''] = Inl NetworkXError"
    by (simp add: loop_predecessors combinations_two)
  then have "find_bubble loop_graph = Inl NetworkXError"
    by (simp add: find_bubble_def nodes_example)
  then have "simplify_bubbles zero_rng loop_graph = Some (Inl NetworkXError)"
    by (subst simplify_bubbles.simps) simp
  with wf_loop_graph no_bubble_loop_graph build_graph_loop_graph show ?thesis by simp
qed

section \<open>A graph on which the bubble search does not end\<close>

lemma triangle_from_reads:
  "build_kmer_dict [''@1'', ''ATTG'', ''+'', ''IIII'', ''@2'', ''ATG'', ''+'', ''III''] 22
     = Inr triangle_kmers"
  by (simp add: build_kmer_dict_def strip_def is_space_def cut_kmer_def count_kmer_def
        triangle_kmers_def upt_rec)

lemma build_graph_triangle: "build_graph triangle_kmers = triangle_graph"
  by (simp add: build_graph_def triangle_kmers_def triangle_graph_def build_graph_step_def
        empty_graph_def has_node_def add_node_def has_edge_def add_edge_def Let_def)

lemma wf_triangle: "wf_graph triangle_graph"
  by (simp add: wf_graph_def triangle_graph_def)

lemma triangle_is_dag:
  "is_directed_acyclic_graph triangle_graph" "is_directed_acyclic_graph triangle_copy"
  by (simp_all add: is_directed_acyclic_graph_def triangle_graph_def triangle_copy_def
        has_edge_def)

lemma triangle_nodes:
  "nodes triangle_graph = [''AT'', ''TT'', ''TG'']" "nodes triangle_copy = [''AT'', ''TT'', ''TG'']"
  by (simp_all add: triangle_graph_def triangle_copy_def)

lemma triangle_predecessors:
  "predecessors triangle_graph ''AT'' = []" "predecessors triangle_graph ''TT'' = [''AT'']"
  "predecessors triangle_graph ''TG'' = [''TT'', ''AT'']"
  "predecessors triangle_copy ''AT'' = []" "predecessors triangle_copy ''TT'' = [''AT'']"
  "predecessors triangle_copy ''TG'' = [''AT'', ''TT'']"
  by (simp_all add: triangle_graph_def triangle_copy_def predecessors_def)

lemma triangle_ancestors:
  "ancestors_self triangle_graph ''TT'' = [''TT'', ''AT'']"
  "ancestors_self triangle_graph ''AT'' = [''AT'']"
  "ancestors_self triangle_copy ''TT'' = [''TT'', ''AT'']"
  "ancestors_self triangle_copy ''AT'' = [''AT'']"
  by (simp_all add: ancestors_self_def triangle_nodes triangle_predecessors)

lemma triangle_common:
  "common_ancestors triangle_graph ''TT'' ''AT'' = [''AT'']"
  "common_ancestors triangle_copy ''AT'' ''TT'' = [''AT'']"
  by (simp_all add: common_ancestors_def triangle_ancestors triangle_nodes)

lemma triangle_successors:
  "successors triangle_graph ''AT'' = [''TT'', ''TG'']"
  "successors triangle_copy ''AT'' = [''TT'', ''TG'']"
  by (simp_all add: triangle_graph_def triangle_copy_def successors_def)

lemma triangle_lca:
  "lowest_common_ancestor triangle_graph ''TT'' ''AT'' = Inr (Some ''AT'')"
  "lowest_common_ancestor triangle_copy ''AT'' ''TT'' = Inr (Some ''AT'')"
  by (simp_all add: lowest_common_ancestor_def triangle_is_dag triangle_common triangle_nodes
        triangle_successors)

lemma triangle_find_bubble:
  "find_bubble triangle_graph = Inr (Some (''AT'', ''TG''))"
  "find_bubble triangle_copy = Inr (Some (''AT'', ''TG''))"
  by (simp_all add: find_bubble_def triangle_nodes triangle_predecessors combinations_two
        triangle_lca)

lemma triangle_simple_paths:
  "all_simple_paths triangle_graph ''AT'' ''TG'' = Inr triangle_paths"
  "all_simple_paths triangle_copy ''AT'' ''TG'' = Inr triangle_paths"
  by (simp_all add: all_simple_paths_def triangle_graph_def triangle_copy_def successors_def
        Let_def triangle_paths_def)

lemma triangle_weights:
  "map_err (path_average_weight triangle_graph) triangle_paths = Inr [1, 1]"
  "map_err (path_average_weight triangle_copy) triangle_paths = Inr [1, 1]"
  by (simp_all add: path_average_weight_def triangle_graph_def triangle_copy_def subgraph_def
        edges_data_def mean_def triangle_paths_def)

lemma triangle_select:
  "select_best_path rng triangle_graph triangle_paths [3, 2] [1, 1] False False
     = Inr (triangle_copy, rng)"
  "select_best_path rng triangle_copy triangle_paths [3, 2] [1, 1] False False
     = Inr (triangle_copy, rng)"
  by (simp_all add: select_best_path_def best_path_index_def stdev_simps variance_def
        power2_eq_square py_get_def triangle_paths_def remove_paths_def copy_def edges_data_def
        triangle_graph_def triangle_copy_def remove_nodes_from_def removed_nodes_def)

lemma triangle_solve_bubble:
  "solve_bubble rng triangle_graph ''AT'' ''TG'' = Inr (triangle_copy, rng)"
  "solve_bubble rng triangle_copy ''AT'' ''TG'' = Inr (triangle_copy, rng)"
  using triangle_select [of rng]
  by (simp_all add: solve_bubble_def triangle_simple_paths triangle_weights)
     (simp_all add: triangle_paths_def)

lemma simplify_bubbles_triangle_copy: "simplify_bubbles rng triangle_copy = None"
proof (rule ccontr)
  assume "simplify_bubbles rng triangle_copy \<noteq> None"
  then obtain y where y: "simplify_bubbles rng triangle_copy = Some y" by blast
  have "triangle_copy \<noteq> triangle_copy"
  proof (rule simplify_bubbles.raw_induct [where P = "\<lambda>r g z. g \<noteq> triangle_copy", OF _ y])
    fix f :: "rng \<Rightarrow> graph \<Rightarrow> (error + graph \<times> rng) option" and r g z
    assume IH: "\<And>r g z. f r g = Some z \<Longrightarrow> g \<noteq> triangle_copy"
      and step: "(case find_bubble g of
                    Inl e \<Rightarrow> Some (Inl e)
                  | Inr None \<Rightarrow> Some (Inr (g, r))
                  | Inr (Some b) \<Rightarrow>
                      (case solve_bubble r g (fst b) (snd b) of
                         Inl e \<Rightarrow> Some (Inl e)
                       | Inr gr \<Rightarrow> f (snd gr) (fst gr))) = Some z"
    show "g \<noteq> triangle_copy"
    proof
      assume g: "g = triangle_copy"
      from step have "f r triangle_copy = Some z"
        by (simp add: g triangle_find_bubble triangle_solve_bubble)
      with IH [of r triangle_copy z] show False by simp
    qed
  qed
  then show False by simp
qed

text \<open>
  Claim C4 fails on the acyclic graph built from the reads \<^verbatim>\<open>ATTG\<close> and \<^verbatim>\<open>ATG\<close>. The
  scan finds the bubble between \<open>AT\<close> and \<open>TG\<close>; the longer path is kept and the path
  \<open>AT, TG\<close> is removed, but it has no node between its ends, so the graph returned has
  the same nodes and edges and the next scan finds the same bubble:
  \<^verbatim>\<open>simplify_bubbles\<close> never reaches a scan without a bubble and never returns.
\<close>

theorem simplify_bubbles_triangle_never_returns:
  "build_kmer_dict [''@1'', ''ATTG'', ''+'', ''IIII'', ''@2'', ''ATG'', ''+'', ''III''] 22
     = Inr triangle_kmers \<and>
   build_graph triangle_kmers = triangle_graph \<and>
   acyclic (edge_rel triangle_graph) \<and>
   find_bubble triangle_graph = Inr (Some (''AT'', ''TG'')) \<and>
   solve_bubble rng triangle_graph ''AT'' ''TG'' = Inr (triangle_copy, rng) \<and>
   find_bubble triangle_copy = Inr (Some (''AT'', ''TG'')) \<and>
   solve_bubble rng triangle_copy ''AT'' ''TG'' = Inr (triangle_copy, rng) \<and>
   simplify_bubbles rng triangle_graph = None"
proof -
  have "acyclic (edge_rel triangle_graph)"
    using wf_triangle triangle_is_dag(1) by (rule is_dag_acyclic)
  moreover have "simplify_bubbles rng triangle_graph = None"
    by (subst simplify_bubbles.simps)
       (simp add: triangle_find_bubble triangle_solve_bubble simplify_bubbles_triangle_copy)
  ultimately show ?thesis
    by (simp add: triangle_from_reads build_graph_triangle wf_triangle triangle_find_bubble
          triangle_solve_bubble)
qed

section \<open>The average weight of a path with a chord\<close>

lemma chord_average:
  "path_average_weight chord_graph [''AT'', ''TT'', ''TG''] = Inr 4"
  by (simp add: path_average_weight_def chord_graph_def subgraph_def edges_data_def mean_def)

text \<open>
  Claim C3 fails on a path whose nodes have one more edge between them: on the simple
  path \<open>AT, TT, TG\<close> the edges between consecutive nodes have the weights 1 and 1, of
  mean 1, and \<^verbatim>\<open>path_average_weight\<close> returns 4, the mean of 1, 1 and the weight 10 of
  the edge from \<open>AT\<close> to \<open>TG\<close>.
\<close>

theorem path_average_weight_counts_chord:
  "simple_path chord_graph ''AT'' ''TG'' [''AT'', ''TT'', ''TG''] \<and>
   path_weights chord_graph [''AT'', ''TT'', ''TG''] = [1, 1] \<and>
   mean (map of_int (path_weights chord_graph [''AT'', ''TT'', ''TG''])) = Inr 1 \<and>
   path_average_weight chord_graph [''AT'', ''TT'', ''TG''] = Inr 4"
  by (simp add: chord_average)
     (simp add: simple_path_def edge_rel_def chord_graph_def mean_def)

section \<open>Contigs are read off simple paths\<close>

lemma is_walk_snoc:
  "is_walk g (p @ [v]) \<longleftrightarrow> is_walk g p \<and> (p = [] \<or> (last p, v) \<in> edge_rel g)"
  by (induction g p rule: is_walk.induct) auto

lemma explore_sound:
  assumes "p \<in> set (explore g k path targets)" "path \<noteq> []" "distinct path" "is_walk g path"
  shows "hd p = hd path \<and> distinct p \<and> is_walk g p \<and> last p \<in> set targets \<and> p \<noteq> []"
  using assms
proof (induction k arbitrary: path)
  case 0
  then show ?case by simp
next
  case (Suc k)
  from Suc.prems(1) obtain v where v: "v \<in> set (successors g (last path))" "v \<notin> set path"
    and p: "(v \<in> set targets \<and> p = path @ [v]) \<or> p \<in> set (explore g k (path @ [v]) targets)"
    by (auto split: if_splits)
  have ext: "path @ [v] \<noteq> []" "distinct (path @ [v])" "is_walk g (path @ [v])"
    "hd (path @ [v]) = hd path"
    using v Suc.prems(2-4) by (simp_all add: is_walk_snoc in_successors)
  from p show ?case
  proof
    assume "v \<in> set targets \<and> p = path @ [v]"
    with ext show ?thesis by simp
  next
    assume "p \<in> set (explore g k (path @ [v]) targets)"
    from Suc.IH [OF this ext(1-3)] ext(4) show ?thesis by simp
  qed
qed

lemma all_simple_paths_sound:
  assumes "all_simple_paths g s t = Inr ps" "t \<in> set (nodes g)" "p \<in> set ps"
  shows "simple_path g s t p"
proof (cases "s = t")
  case True
  with assms show ?thesis
    by (auto simp: all_simple_paths_def simple_path_def split: if_splits)
next
  case False
  with assms have "p \<in> set (explore g (length (nodes g) - 1) [s] [t])"
    by (auto simp: all_simple_paths_def split: if_splits)
  from explore_sound [OF this] show ?thesis
    by (simp add: simple_path_def)
qed

lemma has_path_nodes:
  "has_path g s t = Inr b \<Longrightarrow> s \<in> set (nodes g) \<and> t \<in> set (nodes g)"
  by (auto simp: has_path_def split: if_splits)

lemma map_err_Inr:
  "map_err f xs = Inr ys \<Longrightarrow> y \<in> set ys \<Longrightarrow> \<exists>x \<in> set xs. f x = Inr y"
proof (induction xs arbitrary: ys)
  case Nil
  then show ?case by simp
next
  case (Cons x xs)
  then show ?case
    by (auto split: sum.splits)
qed

lemma contig_loop_nonempty:
  "acc \<noteq> [] \<Longrightarrow> contig_loop acc ns = Inr r \<Longrightarrow> r = acc @ map last ns"
proof (induction ns arbitrary: acc)
  case Nil
  then show ?case by simp
next
  case (Cons a ns)
  from Cons.prems have a: "a \<noteq> []" and "contig_loop (acc @ [last a]) ns = Inr r"
    by (auto split: if_splits)
  from Cons.IH [OF _ this(2)] show ?case by simp
qed

lemma contig_tuple_eq:
  assumes "contig_tuple p = Inr (sequence, n)" "p \<noteq> []" "hd p \<noteq> []"
  shows "sequence = contig_of p \<and> n = length (hd p) + (length p - 1)"
proof -
  obtain x xs where p: "p = x # xs" using assms(2) by (cases p) auto
  with assms(3) have x: "x \<noteq> []" by simp
  from assms(1) have "contig_loop [] (x # xs) = Inr sequence" "n = length sequence"
    by (auto simp: contig_tuple_def p split: sum.splits)
  then have "contig_loop x xs = Inr sequence" by simp
  from contig_loop_nonempty [OF x this] \<open>n = length sequence\<close>
  show ?thesis by (simp add: contig_of_def p)
qed

section \<open>The invariant of the graph\<close>

lemma positive_build_graph_step:
  assumes "\<forall>e \<in> set (edges g). 0 < snd e" "1 \<le> snd kc"
  shows "\<forall>e \<in> set (edges (build_graph_step g kc)). 0 < snd e"
proof -
  obtain kmer c where kc: "kc = (kmer, c)" by (cases kc)
  let ?k = "(butlast kmer, drop 1 kmer)"
  let ?v = "case map_of (edges g) ?k of Some w \<Rightarrow> w + c | None \<Rightarrow> c"
  have "0 < ?v"
  proof (cases "map_of (edges g) ?k")
    case None
    with assms(2) kc show ?thesis by simp
  next
    case (Some w)
    then have "(?k, w) \<in> set (edges g)" by (rule map_of_SomeD)
    with assms(1) have "0 < w" by force
    with assms(2) kc Some show ?thesis by simp
  qed
  moreover have "set (edges (build_graph_step g kc)) \<subseteq> insert (?k, ?v) (set (edges g))"
    using set_update_subset [of ?k ?v "edges g"]
    by (simp add: kc build_graph_step_eq Let_def step_nodes_props)
  ultimately show ?thesis using assms(1) by auto
qed

lemma positive_foldl_build:
  "\<forall>e \<in> set (edges g). 0 < snd e \<Longrightarrow> \<forall>kc \<in> set kd. 1 \<le> snd kc \<Longrightarrow>
   \<forall>e \<in> set (edges (foldl build_graph_step g kd)). 0 < snd e"
proof (induction kd arbitrary: g)
  case Nil
  then show ?case by simp
next
  case (Cons kc kd)
  from Cons.prems have "\<forall>e \<in> set (edges (build_graph_step g kc)). 0 < snd e"
    by (intro positive_build_graph_step) simp_all
  from Cons.IH [OF this] Cons.prems(2) show ?case by simp
qed

lemma invariant_build_graph:
  assumes "\<forall>kc \<in> set kd. 1 \<le> snd kc"
  shows "graph_invariant (build_graph kd)"
proof -
  have "\<forall>e \<in> set (edges (build_graph kd)). 0 < snd e"
    unfolding build_graph_def
    by (rule positive_foldl_build [OF _ assms]) (simp add: empty_graph_def)
  with wf_build_graph [of kd] show ?thesis
    by (simp add: graph_invariant_def edge_invariant_def wf_graph_def)
qed

lemma invariant_copy: assumes "graph_invariant g" shows "graph_invariant (copy g)"
proof -
  from assms have wf: "wf_graph g" and pos: "\<forall>e \<in> set (edges g). 0 < snd e"
    by (simp_all add: graph_invariant_def edge_invariant_def)
  have m: "mset (edges_data g) = mset (edges g)"
    using wf by (intro mset_edges_data) (simp_all add: wf_graph_def)
  then have s: "set (edges_data g) = set (edges g)" by (rule mset_eq_setD)
  from m have "mset (map fst (edges_data g)) = mset (map fst (edges g))" by (metis mset_map)
  then have "distinct (map fst (edges_data g)) \<longleftrightarrow> distinct (map fst (edges g))"
    by (rule mset_eq_imp_distinct_iff)
  with wf pos s show ?thesis
    by (simp add: graph_invariant_def edge_invariant_def wf_graph_def copy_def)
qed

lemma invariant_remove_nodes_from: "graph_invariant g \<Longrightarrow> graph_invariant (remove_nodes_from g ns)"
  by (auto simp: graph_invariant_def edge_invariant_def wf_graph_def remove_nodes_from_def
        distinct_map_filter)

lemma invariant_remove_paths: assumes "graph_invariant g" shows "graph_invariant (remove_paths g pl de ds)"
proof -
  have "graph_invariant h \<Longrightarrow> graph_invariant (foldl (\<lambda>h p. remove_nodes_from h (removed_nodes p de ds)) h pl)" for h
    by (induction pl arbitrary: h) (simp_all add: invariant_remove_nodes_from)
  from this [OF invariant_copy [OF assms]] show ?thesis by (simp add: remove_paths_def)
qed

lemma invariant_select_best_path:
  assumes "graph_invariant g" "select_best_path rng g pl plen ws de ds = Inr (g', rng')"
  shows "graph_invariant g'"
proof -
  have loop: "graph_invariant h \<Longrightarrow>
     graph_invariant (foldl (\<lambda>h p. if p \<noteq> b then remove_paths h [p] de ds else h) h pl)" for h b
    by (induction pl arbitrary: h) (simp_all add: invariant_remove_paths)
  from assms(2) obtain b where
    "g' = foldl (\<lambda>h p. if p \<noteq> b then remove_paths h [p] de ds else h) g pl"
    by (auto simp: select_best_path_def split: sum.splits prod.splits)
  with loop [OF assms(1)] show ?thesis by simp
qed

lemma invariant_solve_bubble:
  assumes "graph_invariant g" "solve_bubble rng g a d = Inr (g', rng')"
  shows "graph_invariant g'"
  using assms
  by (auto simp: solve_bubble_def split: sum.splits dest: invariant_select_best_path)

lemma invariant_solve_entry_tips:
  assumes "graph_invariant g" "solve_entry_tips rng g starting_nodes = Inr (g', rng')"
  shows "graph_invariant g'"
  using assms
  by (auto simp: solve_entry_tips_def split: sum.splits if_splits dest: invariant_select_best_path)

lemma invariant_solve_out_tips:
  assumes "graph_invariant g" "solve_out_tips rng g ending_nodes = Inr (g', rng')"
  shows "graph_invariant g'"
  using assms
  by (auto simp: solve_out_tips_def split: sum.splits if_splits dest: invariant_select_best_path)

lemma invariant_simplify_bubbles:
  assumes run: "simplify_bubbles rng g = Some y"
  shows "graph_invariant g \<longrightarrow> (\<forall>g' rng'. y = Inr (g', rng') \<longrightarrow> graph_invariant g')"
proof (rule simplify_bubbles.raw_induct
         [where P = "\<lambda>r g z. graph_invariant g \<longrightarrow> (\<forall>g' r'. z = Inr (g', r') \<longrightarrow> graph_invariant g')", OF _ run])
  fix f :: "rng \<Rightarrow> graph \<Rightarrow> (error + graph \<times> rng) option" and r g z
  assume IH: "\<And>r g z. f r g = Some z \<Longrightarrow>
                 graph_invariant g \<longrightarrow> (\<forall>g' r'. z = Inr (g', r') \<longrightarrow> graph_invariant g')"
    and step: "(case find_bubble g of
                  Inl e \<Rightarrow> Some (Inl e)
                | Inr None \<Rightarrow> Some (Inr (g, r))
                | Inr (Some b) \<Rightarrow>
                    (case solve_bubble r g (fst b) (snd b) of
                       Inl e \<Rightarrow> Some (Inl e)
                     | Inr gr \<Rightarrow> f (snd gr) (fst gr))) = Some z"
  show "graph_invariant g \<longrightarrow> (\<forall>g' r'. z = Inr (g', r') \<longrightarrow> graph_invariant g')"
  proof (intro impI allI)
    fix g' r'
    assume g: "graph_invariant g" and z: "z = Inr (g', r')"
    show "graph_invariant g'"
    proof (cases "find_bubble g")
      case (Inl e)
      with step z show ?thesis by simp
    next
      case (Inr ob)
      show ?thesis
      proof (cases ob)
        case None
        with Inr step z g show ?thesis by simp
      next
        case (Some b)
        show ?thesis
        proof (cases "solve_bubble r g (fst b) (snd b)")
          case (Inl e)
          with Inr Some step z show ?thesis by simp
        next
          case sb: (Inr gr)
          then have "solve_bubble r g (fst b) (snd b) = Inr (fst gr, snd gr)" by simp
          from invariant_solve_bubble [OF g this] have "graph_invariant (fst gr)" .
          moreover from Inr Some sb step have "f (snd gr) (fst gr) = Some z" by simp
          ultimately show ?thesis using IH [of "snd gr" "fst gr" z] z by simp
        qed
      qed
    qed
  qed
qed

text \<open>
  Claim C9. For every k-mer count mapping whose counts are all at least 1, the graph
  produced by \<^verbatim>\<open>build_graph\<close> has at most one edge for any ordered pair of nodes and
  only positive integer weights; and \<^verbatim>\<open>remove_paths\<close>, \<^verbatim>\<open>select_best_path\<close>,
  \<^verbatim>\<open>simplify_bubbles\<close>, \<^verbatim>\<open>solve_entry_tips\<close> and \<^verbatim>\<open>solve_out_tips\<close> return, from a
  graph with these two properties, a graph that has them too.
\<close>

theorem edge_invariant_established_and_preserved:
  "((\<forall>kc \<in> set kmer_dict. 1 \<le> snd kc) \<longrightarrow>
      wf_graph (build_graph kmer_dict) \<and> edge_invariant (build_graph kmer_dict)) \<and>
   (wf_graph g \<and> edge_invariant g \<longrightarrow>
      (wf_graph (remove_paths g path_list de ds) \<and>
       edge_invariant (remove_paths g path_list de ds)) \<and>
      (\<forall>g' rng'. select_best_path rng g path_list path_length weight_avg_list de ds
                    = Inr (g', rng') \<longrightarrow> wf_graph g' \<and> edge_invariant g') \<and>
      (\<forall>g' rng'. simplify_bubbles rng g = Some (Inr (g', rng')) \<longrightarrow>
                    wf_graph g' \<and> edge_invariant g') \<and>
      (\<forall>g' rng'. solve_entry_tips rng g starting_nodes = Inr (g', rng') \<longrightarrow>
                    wf_graph g' \<and> edge_invariant g') \<and>
      (\<forall>g' rng'. solve_out_tips rng g ending_nodes = Inr (g', rng') \<longrightarrow>
                    wf_graph g' \<and> edge_invariant g'))"
proof (intro conjI impI allI)
  assume "\<forall>kc \<in> set kmer_dict. 1 \<le> snd kc"
  from invariant_build_graph [OF this]
  show "wf_graph (build_graph kmer_dict)" "edge_invariant (build_graph kmer_dict)"
    by (simp_all add: graph_invariant_def)
next
  assume "wf_graph g \<and> edge_invariant g"
  then have "graph_invariant (remove_paths g path_list de ds)"
    by (intro invariant_remove_paths) (simp add: graph_invariant_def)
  then show "wf_graph (remove_paths g path_list de ds)"
    "edge_invariant (remove_paths g path_list de ds)"
    by (simp_all add: graph_invariant_def)
next
  fix g' rng'
  assume g: "wf_graph g \<and> edge_invariant g"
    and "select_best_path rng g path_list path_length weight_avg_list de ds = Inr (g', rng')"
  from invariant_select_best_path [OF _ this(2)] g
  show "wf_graph g'" "edge_invariant g'" by (simp_all add: graph_invariant_def)
next
  fix g' rng'
  assume g: "wf_graph g \<and> edge_invariant g"
    and "simplify_bubbles rng g = Some (Inr (g', rng'))"
  from invariant_simplify_bubbles [OF this(2)] g
  show "wf_graph g'" "edge_invariant g'" by (simp_all add: graph_invariant_def)
next
  fix g' rng'
  assume g: "wf_graph g \<and> edge_invariant g"
    and "solve_entry_tips rng g starting_nodes = Inr (g', rng')"
  from invariant_solve_entry_tips [OF _ this(2)] g
  show "wf_graph g'" "edge_invariant g'" by (simp_all add: graph_invariant_def)
next
  fix g' rng'
  assume g: "wf_graph g \<and> edge_invariant g"
    and "solve_out_tips rng g ending_nodes = Inr (g', rng')"
  from invariant_solve_out_tips [OF _ this(2)] g
  show "wf_graph g'" "edge_invariant g'" by (simp_all add: graph_invariant_def)
qed

lemma bubble_nodes: "nodes bubble_graph = [''A'', ''B'', ''C'', ''D'']"
  "nodes bubble_solved = [''A'', ''B'', ''D'']"
  by (simp_all add: bubble_graph_def bubble_solved_def)

lemma bubble_predecessors:
  "predecessors bubble_graph ''A'' = []" "predecessors bubble_graph ''B'' = [''A'']"
  "predecessors bubble_graph ''C'' = [''A'']" "predecessors bubble_graph ''D'' = [''B'', ''C'']"
  "predecessors bubble_solved ''A'' = []" "predecessors bubble_solved ''B'' = [''A'']"
  "predecessors bubble_solved ''D'' = [''B'']"
  by (simp_all add: bubble_graph_def bubble_solved_def predecessors_def)

lemma bubble_successors:
  "successors bubble_graph ''A'' = [''B'', ''C'']" "successors bubble_graph ''B'' = [''D'']"
  "successors bubble_graph ''C'' = [''D'']" "successors bubble_graph ''D'' = []"
  by (simp_all add: bubble_graph_def successors_def)

lemma bubble_is_dag: "is_directed_acyclic_graph bubble_graph"
  by (simp add: is_directed_acyclic_graph_def bubble_graph_def has_edge_def)

lemma bubble_ancestors:
  "ancestors_self bubble_graph ''B'' = [''B'', ''A'']"
  "ancestors_self bubble_graph ''C'' = [''C'', ''A'']"
  by (simp_all add: ancestors_self_def bubble_nodes bubble_predecessors)

lemma bubble_lca: "lowest_common_ancestor bubble_graph ''B'' ''C'' = Inr (Some ''A'')"
  by (simp add: lowest_common_ancestor_def bubble_is_dag common_ancestors_def bubble_ancestors
        bubble_nodes bubble_successors)

lemma bubble_find: "find_bubble bubble_graph = Inr (Some (''A'', ''D''))"
  "find_bubble bubble_solved = Inr None"
  by (simp_all add: find_bubble_def bubble_nodes bubble_predecessors combinations_two bubble_lca)

lemma bubble_all_simple_paths: "all_simple_paths bubble_graph ''A'' ''D'' = Inr bubble_paths"
  by (simp add: all_simple_paths_def bubble_nodes bubble_successors Let_def bubble_paths_def)

lemma bubble_weights:
  "path_average_weight bubble_graph [''A'', ''B'', ''D''] = Inr 5"
  "path_average_weight bubble_graph [''A'', ''C'', ''D''] = Inr 1"
  by (simp_all add: path_average_weight_def bubble_graph_def subgraph_def edges_data_def mean_def)

lemma bubble_select:
  "select_best_path rng bubble_graph bubble_paths [3, 3] [5, 1] False False
     = Inr (bubble_solved, rng)"
  "select_best_path rng bubble_graph bubble_paths [3, 3] [5, 1] True False
     = Inr (entry_solved, rng)"
  "select_best_path rng bubble_graph bubble_paths [3, 3] [5, 1] False True
     = Inr (out_solved, rng)"
  by (simp_all add: select_best_path_def best_path_index_bubble py_get_def)
     (simp_all add: bubble_paths_def remove_paths_def copy_def edges_data_def bubble_graph_def
        bubble_solved_def entry_solved_def out_solved_def remove_nodes_from_def removed_nodes_def)

lemma bubble_solve: "solve_bubble rng bubble_graph ''A'' ''D'' = Inr (bubble_solved, rng)"
  using bubble_select(1) [of rng]
  by (simp add: solve_bubble_def bubble_all_simple_paths [unfolded bubble_paths_def]
        bubble_weights bubble_paths_def)

lemma bubble_simplify: "simplify_bubbles rng bubble_graph = Some (Inr (bubble_solved, rng))"
proof -
  have "simplify_bubbles rng bubble_solved = Some (Inr (bubble_solved, rng))"
    by (subst simplify_bubbles.simps) (simp add: bubble_find)
  then show ?thesis
    by (subst simplify_bubbles.simps) (simp add: bubble_find bubble_solve)
qed

lemma bubble_entry_tips:
  "solve_entry_tips rng bubble_graph [''A''] = Inr (entry_solved, rng)"
  using bubble_select(2) [of rng]
  by (simp add: solve_entry_tips_def bubble_nodes bubble_predecessors
        bubble_all_simple_paths [unfolded bubble_paths_def] bubble_weights bubble_paths_def)

lemma bubble_out_tips:
  "solve_out_tips rng bubble_graph [''D''] = Inr (out_solved, rng)"
  using bubble_select(3) [of rng]
  by (simp add: solve_out_tips_def bubble_nodes bubble_successors
        bubble_all_simple_paths [unfolded bubble_paths_def] bubble_weights bubble_paths_def)

theorem edge_invariant_established_and_preserved_witness:
  "wf_graph (build_graph triangle_kmers) \<and> edge_invariant (build_graph triangle_kmers) \<and>
   wf_graph bubble_graph \<and> edge_invariant bubble_graph \<and>
   wf_graph (remove_paths bubble_graph bubble_paths False False) \<and>
   edge_invariant (remove_paths bubble_graph bubble_paths False False) \<and>
   select_best_path zero_rng bubble_graph bubble_paths [3, 3] [5, 1] False False
     = Inr (bubble_solved, zero_rng) \<and>
   simplify_bubbles zero_rng bubble_graph = Some (Inr (bubble_solved, zero_rng)) \<and>
   wf_graph bubble_solved \<and> edge_invariant bubble_solved \<and>
   solve_entry_tips zero_rng bubble_graph [''A''] = Inr (entry_solved, zero_rng) \<and>
   wf_graph entry_solved \<and> edge_invariant entry_solved \<and>
   solve_out_tips zero_rng bubble_graph [''D''] = Inr (out_solved, zero_rng) \<and>
   wf_graph out_solved \<and> edge_invariant out_solved"
proof -
  have h1: "\<forall>kc \<in> set triangle_kmers. 1 \<le> snd kc"
    by (simp add: triangle_kmers_def)
  have h2: "wf_graph bubble_graph \<and> edge_invariant bubble_graph"
    by (simp add: wf_graph_def edge_invariant_def bubble_graph_def)
  from edge_invariant_established_and_preserved
         [of triangle_kmers bubble_graph bubble_paths False False zero_rng "[3, 3]" "[5, 1]"
             "[''A'']" "[''D'']"]
       h1 h2 bubble_select(1) [of zero_rng] bubble_simplify [of zero_rng]
       bubble_entry_tips [of zero_rng] bubble_out_tips [of zero_rng]
  show ?thesis by blast
qed

section \<open>What the selection keeps and what it removes\<close>

subsection \<open>The two deviations\<close>


subsection \<open>What a removal leaves\<close>

lemma set_edges_data: "wf_graph g \<Longrightarrow> set (edges_data g) = set (edges g)"
  by (rule mset_eq_setD, rule mset_edges_data) (simp_all add: wf_graph_def)

lemma wf_copy: assumes "wf_graph g" shows "wf_graph (copy g)"
proof -
  have m: "mset (edges_data g) = mset (edges g)"
    using assms by (intro mset_edges_data) (simp_all add: wf_graph_def)
  then have "mset (map fst (edges_data g)) = mset (map fst (edges g))" by (metis mset_map)
  then have "distinct (map fst (edges_data g)) \<longleftrightarrow> distinct (map fst (edges g))"
    by (rule mset_eq_imp_distinct_iff)
  with assms set_edges_data [OF assms] show ?thesis
    by (simp add: wf_graph_def copy_def)
qed

lemma wf_remove_nodes_from: "wf_graph g \<Longrightarrow> wf_graph (remove_nodes_from g ns)"
  by (auto simp: wf_graph_def remove_nodes_from_def distinct_map_filter)

lemma remove_one_path:
  assumes "wf_graph g"
  shows "wf_graph (remove_paths g [p] de ds)"
    and "set (edges (remove_paths g [p] de ds))
           = {e \<in> set (edges g). fst (fst e) \<notin> set (removed_nodes p de ds) \<and>
                                   snd (fst e) \<notin> set (removed_nodes p de ds)}"
proof -
  show "wf_graph (remove_paths g [p] de ds)"
    by (simp add: remove_paths_def wf_remove_nodes_from wf_copy [OF assms])
  show "set (edges (remove_paths g [p] de ds))
           = {e \<in> set (edges g). fst (fst e) \<notin> set (removed_nodes p de ds) \<and>
                                   snd (fst e) \<notin> set (removed_nodes p de ds)}"
    using set_edges_data [OF assms]
    by (auto simp: remove_paths_def remove_nodes_from_def copy_def)
qed

lemma edges_foldl_remove_paths:
  assumes "wf_graph g"
  shows "set (edges (foldl (\<lambda>g p. remove_paths g [p] de ds) g ps))
           = {e \<in> set (edges g). fst (fst e) \<notin> (\<Union>p \<in> set ps. set (removed_nodes p de ds)) \<and>
                                   snd (fst e) \<notin> (\<Union>p \<in> set ps. set (removed_nodes p de ds))}"
  using assms
proof (induction ps arbitrary: g)
  case Nil
  show ?case by simp
next
  case (Cons p ps)
  from Cons.IH [OF remove_one_path(1) [OF Cons.prems]] remove_one_path(2) [OF Cons.prems, of p de ds]
  show ?case by auto
qed

lemma removal_nodes_edges:
  assumes "wf_graph g"
  shows "nodes (removal g path_list best de ds)
           = filter (\<lambda>n. n \<notin> deleted_nodes path_list best de ds) (nodes g)"
    and "set (edges (removal g path_list best de ds))
           = {e \<in> set (edges g). fst (fst e) \<notin> deleted_nodes path_list best de ds \<and>
                                   snd (fst e) \<notin> deleted_nodes path_list best de ds}"
proof -
  have D: "deleted_nodes path_list best de ds
             = (\<Union>p \<in> set (filter (\<lambda>p. p \<noteq> best) path_list). set (removed_nodes p de ds))"
    by (auto simp: deleted_nodes_def)
  show "nodes (removal g path_list best de ds)
           = filter (\<lambda>n. n \<notin> deleted_nodes path_list best de ds) (nodes g)"
    unfolding D removal_def nodes_foldl_remove_paths
    by (rule filter_cong) auto
  show "set (edges (removal g path_list best de ds))
           = {e \<in> set (edges g). fst (fst e) \<notin> deleted_nodes path_list best de ds \<and>
                                   snd (fst e) \<notin> deleted_nodes path_list best de ds}"
    unfolding D removal_def by (rule edges_foldl_remove_paths [OF assms])
qed





subsection \<open>Two bubbles\<close>




lemma overlap_first_max: "first_max overlap_weights 1"
  by (simp add: first_max_def overlap_weights_def less_Suc_eq nth_Cons')






section \<open>Contigs of the graphs of the data model\<close>

lemma walk_lengths:
  assumes "equal_length_edges g" "is_walk g p"
  shows "\<forall>n \<in> set p. length n = length (hd p)"
  using assms
proof (induction g p rule: is_walk.induct)
  case (3 g u v p)
  from 3(3) have uv: "(u, v) \<in> edge_rel g" and w: "is_walk g (v # p)" by simp_all
  from uv 3(2) have "length u = length v"
    by (force simp: edge_rel_def equal_length_edges_def)
  with 3(1) [OF 3(2) w] show ?case by simp
qed simp_all

lemma contig_tuple_equal_lengths:
  assumes "contig_tuple p = Inr (sequence, n)" "p \<noteq> []" "distinct p"
    and "\<forall>x \<in> set p. length x = length (hd p)"
  shows "sequence = contig_of p \<and> n = length (hd p) + (length p - 1)"
proof (cases "hd p = []")
  case False
  from contig_tuple_eq [OF assms(1,2) False] show ?thesis .
next
  case True
  with assms(4) have all: "\<forall>x \<in> set p. x = []" by simp
  obtain x xs where p: "p = x # xs" using assms(2) by (cases p) auto
  have "xs = []"
  proof (cases xs)
    case (Cons y ys)
    with p all have "x = y" by simp
    with p Cons assms(3) show ?thesis by simp
  qed simp
  with p all have "p = [[]]" by simp
  with assms(1) show ?thesis
    by (auto simp: contig_tuple_def contig_of_def)
qed

text \<open>
  Claim C7. For every graph of the data model, in which an edge joins two strings of the
  same length (the prefix and the suffix of a k-mer), every list of starting nodes and
  every list of ending nodes, every (sequence, length) pair returned by \<^verbatim>\<open>get_contigs\<close>
  corresponds to a simple path from a starting node to an ending node: the sequence is
  the path's first node in full followed by the last character of every other node, and
  the length is the length of the first node plus the number of edges of the path.
  Every graph that \<^verbatim>\<open>build_graph\<close> returns is such a graph, and so is what a removal of
  paths leaves of one.
\<close>

theorem get_contigs_simple_paths:
  assumes "equal_length_edges graph"
    and "get_contigs graph starting_nodes ending_nodes = Inr contigs"
    and "(sequence, n) \<in> set contigs"
  shows "\<exists>s \<in> set starting_nodes. \<exists>t \<in> set ending_nodes. \<exists>p.
           simple_path graph s t p \<and> sequence = contig_of p \<and>
           n = length (hd p) + (length p - 1)"
proof -
  let ?pairs = "concat (map (\<lambda>node_start. map (\<lambda>node_target. (node_start, node_target))
                                             ending_nodes) starting_nodes)"
  from assms(2) obtain ls where ls: "map_err (contigs_between graph) ?pairs = Inr ls"
    and contigs: "contigs = concat ls"
    by (auto simp: get_contigs_def split: sum.splits)
  from assms(3) contigs obtain l where l: "l \<in> set ls" "(sequence, n) \<in> set l" by auto
  from map_err_Inr [OF ls l(1)] obtain st where st: "st \<in> set ?pairs"
    and between: "contigs_between graph st = Inr l" by blast
  obtain s t where [simp]: "st = (s, t)" by (cases st)
  from st have s: "s \<in> set starting_nodes" and t: "t \<in> set ending_nodes" by auto
  from between l(2) obtain ps where hp: "has_path graph s t = Inr True"
    and ps: "all_simple_paths graph s t = Inr ps"
    and tuples: "map_err contig_tuple ps = Inr l"
    by (auto simp: contigs_between_def split: sum.splits bool.splits)
  from map_err_Inr [OF tuples l(2)] obtain p where p: "p \<in> set ps"
    and tuple: "contig_tuple p = Inr (sequence, n)" by blast
  from has_path_nodes [OF hp] have "t \<in> set (nodes graph)" by simp
  from all_simple_paths_sound [OF ps this p] have sp: "simple_path graph s t p" .
  then have "p \<noteq> []" "distinct p" "is_walk graph p"
    by (simp_all add: simple_path_def)
  from contig_tuple_equal_lengths [OF tuple this(1,2) walk_lengths [OF assms(1) this(3)]] sp s t
  show ?thesis by blast
qed

lemma equal_length_build_graph_step:
  assumes "equal_length_edges g"
  shows "equal_length_edges (build_graph_step g kc)"
proof -
  obtain kmer c where kc: "kc = (kmer, c)" by (cases kc)
  let ?k = "(butlast kmer, drop 1 kmer)"
  let ?v = "case map_of (edges g) ?k of Some w \<Rightarrow> w + c | None \<Rightarrow> c"
  have "set (edges (build_graph_step g kc)) \<subseteq> insert (?k, ?v) (set (edges g))"
    using set_update_subset [of ?k ?v "edges g"]
    by (simp add: kc build_graph_step_eq Let_def step_nodes_props)
  moreover have "length (butlast kmer) = length (drop 1 kmer)" by simp
  ultimately show ?thesis
    using assms unfolding equal_length_edges_def by fastforce
qed

lemma equal_length_build_graph: "equal_length_edges (build_graph kmer_dict)"
proof -
  have step: "equal_length_edges g \<Longrightarrow> equal_length_edges (foldl build_graph_step g kmer_dict)"
    for g
    by (induction kmer_dict arbitrary: g) (simp_all add: equal_length_build_graph_step)
  have "equal_length_edges empty_graph"
    by (simp add: empty_graph_def equal_length_edges_def)
  from step [OF this] show ?thesis by (simp add: build_graph_def)
qed

lemma equal_length_removal:
  assumes "wf_graph g" "equal_length_edges g"
  shows "equal_length_edges (removal g path_list best de ds)"
  using assms(2) removal_nodes_edges(2) [OF assms(1), of path_list best de ds]
  by (simp add: equal_length_edges_def)

lemma triangle_has_path: "has_path triangle_graph ''AT'' ''TG'' = Inr True"
  by (simp add: has_path_def triangle_graph_def successors_def)

lemma triangle_contigs:
  "get_contigs triangle_graph [''AT''] [''TG''] = Inr [(''ATTG'', 4), (''ATG'', 3)]"
  by (simp add: get_contigs_def contigs_between_def triangle_has_path triangle_simple_paths
        contig_tuple_def triangle_paths_def)

theorem get_contigs_simple_paths_witness:
  "equal_length_edges (build_graph triangle_kmers) \<and>
   get_contigs (build_graph triangle_kmers) [''AT''] [''TG'']
     = Inr [(''ATTG'', 4), (''ATG'', 3)] \<and>
   (''ATTG'', 4) \<in> set [(''ATTG'', 4 :: nat), (''ATG'', 3)] \<and>
   (\<exists>s \<in> set [''AT'']. \<exists>t \<in> set [''TG'']. \<exists>p.
      simple_path (build_graph triangle_kmers) s t p \<and> ''ATTG'' = contig_of p \<and>
      4 = length (hd p) + (length p - 1))"
proof -
  have h1: "equal_length_edges (build_graph triangle_kmers)" by (rule equal_length_build_graph)
  have h2: "get_contigs (build_graph triangle_kmers) [''AT''] [''TG'']
              = Inr [(''ATTG'', 4), (''ATG'', 3)]"
    by (simp add: build_graph_triangle triangle_contigs)
  have h3: "(''ATTG'', 4) \<in> set [(''ATTG'', 4 :: nat), (''ATG'', 3)]" by simp
  from get_contigs_simple_paths [OF h1 h2 h3] h1 h2 h3 show ?thesis by blast
qed

end
